theory Spec2Isabelle
  imports Main "HOL-Library.Word"
begin

unbundle bit_operations_syntax

section \<open>Field arithmetic tables of fecpp.cpp\<close>

text \<open>
  A field element is a byte. The three constant tables are copied from the source:
  \<open>GF_EXP\<close> (510 entries, the antilog table written out twice), \<open>GF_LOG\<close> and
  \<open>GF_INVERSE\<close> (256 entries each).
\<close>

type_synonym byte = "8 word"

definition GF_EXP :: "byte list" where
  "GF_EXP = [
   0x01, 0x02, 0x04, 0x08, 0x10, 0x20, 0x40, 0x80, 0x1D, 0x3A, 0x74,
   0xE8, 0xCD, 0x87, 0x13, 0x26, 0x4C, 0x98, 0x2D, 0x5A, 0xB4, 0x75,
   0xEA, 0xC9, 0x8F, 0x03, 0x06, 0x0C, 0x18, 0x30, 0x60, 0xC0, 0x9D,
   0x27, 0x4E, 0x9C, 0x25, 0x4A, 0x94, 0x35, 0x6A, 0xD4, 0xB5, 0x77,
   0xEE, 0xC1, 0x9F, 0x23, 0x46, 0x8C, 0x05, 0x0A, 0x14, 0x28, 0x50,
   0xA0, 0x5D, 0xBA, 0x69, 0xD2, 0xB9, 0x6F, 0xDE, 0xA1, 0x5F, 0xBE,
   0x61, 0xC2, 0x99, 0x2F, 0x5E, 0xBC, 0x65, 0xCA, 0x89, 0x0F, 0x1E,
   0x3C, 0x78, 0xF0, 0xFD, 0xE7, 0xD3, 0xBB, 0x6B, 0xD6, 0xB1, 0x7F,
   0xFE, 0xE1, 0xDF, 0xA3, 0x5B, 0xB6, 0x71, 0xE2, 0xD9, 0xAF, 0x43,
   0x86, 0x11, 0x22, 0x44, 0x88, 0x0D, 0x1A, 0x34, 0x68, 0xD0, 0xBD,
   0x67, 0xCE, 0x81, 0x1F, 0x3E, 0x7C, 0xF8, 0xED, 0xC7, 0x93, 0x3B,
   0x76, 0xEC, 0xC5, 0x97, 0x33, 0x66, 0xCC, 0x85, 0x17, 0x2E, 0x5C,
   0xB8, 0x6D, 0xDA, 0xA9, 0x4F, 0x9E, 0x21, 0x42, 0x84, 0x15, 0x2A,
   0x54, 0xA8, 0x4D, 0x9A, 0x29, 0x52, 0xA4, 0x55, 0xAA, 0x49, 0x92,
   0x39, 0x72, 0xE4, 0xD5, 0xB7, 0x73, 0xE6, 0xD1, 0xBF, 0x63, 0xC6,
   0x91, 0x3F, 0x7E, 0xFC, 0xE5, 0xD7, 0xB3, 0x7B, 0xF6, 0xF1, 0xFF,
   0xE3, 0xDB, 0xAB, 0x4B, 0x96, 0x31, 0x62, 0xC4, 0x95, 0x37, 0x6E,
   0xDC, 0xA5, 0x57, 0xAE, 0x41, 0x82, 0x19, 0x32, 0x64, 0xC8, 0x8D,
   0x07, 0x0E, 0x1C, 0x38, 0x70, 0xE0, 0xDD, 0xA7, 0x53, 0xA6, 0x51,
   0xA2, 0x59, 0xB2, 0x79, 0xF2, 0xF9, 0xEF, 0xC3, 0x9B, 0x2B, 0x56,
   0xAC, 0x45, 0x8A, 0x09, 0x12, 0x24, 0x48, 0x90, 0x3D, 0x7A, 0xF4,
   0xF5, 0xF7, 0xF3, 0xFB, 0xEB, 0xCB, 0x8B, 0x0B, 0x16, 0x2C, 0x58,
   0xB0, 0x7D, 0xFA, 0xE9, 0xCF, 0x83, 0x1B, 0x36, 0x6C, 0xD8, 0xAD,
   0x47, 0x8E, 0x01, 0x02, 0x04, 0x08, 0x10, 0x20, 0x40, 0x80, 0x1D,
   0x3A, 0x74, 0xE8, 0xCD, 0x87, 0x13, 0x26, 0x4C, 0x98, 0x2D, 0x5A,
   0xB4, 0x75, 0xEA, 0xC9, 0x8F, 0x03, 0x06, 0x0C, 0x18, 0x30, 0x60,
   0xC0, 0x9D, 0x27, 0x4E, 0x9C, 0x25, 0x4A, 0x94, 0x35, 0x6A, 0xD4,
   0xB5, 0x77, 0xEE, 0xC1, 0x9F, 0x23, 0x46, 0x8C, 0x05, 0x0A, 0x14,
   0x28, 0x50, 0xA0, 0x5D, 0xBA, 0x69, 0xD2, 0xB9, 0x6F, 0xDE, 0xA1,
   0x5F, 0xBE, 0x61, 0xC2, 0x99, 0x2F, 0x5E, 0xBC, 0x65, 0xCA, 0x89,
   0x0F, 0x1E, 0x3C, 0x78, 0xF0, 0xFD, 0xE7, 0xD3, 0xBB, 0x6B, 0xD6,
   0xB1, 0x7F, 0xFE, 0xE1, 0xDF, 0xA3, 0x5B, 0xB6, 0x71, 0xE2, 0xD9,
   0xAF, 0x43, 0x86, 0x11, 0x22, 0x44, 0x88, 0x0D, 0x1A, 0x34, 0x68,
   0xD0, 0xBD, 0x67, 0xCE, 0x81, 0x1F, 0x3E, 0x7C, 0xF8, 0xED, 0xC7,
   0x93, 0x3B, 0x76, 0xEC, 0xC5, 0x97, 0x33, 0x66, 0xCC, 0x85, 0x17,
   0x2E, 0x5C, 0xB8, 0x6D, 0xDA, 0xA9, 0x4F, 0x9E, 0x21, 0x42, 0x84,
   0x15, 0x2A, 0x54, 0xA8, 0x4D, 0x9A, 0x29, 0x52, 0xA4, 0x55, 0xAA,
   0x49, 0x92, 0x39, 0x72, 0xE4, 0xD5, 0xB7, 0x73, 0xE6, 0xD1, 0xBF,
   0x63, 0xC6, 0x91, 0x3F, 0x7E, 0xFC, 0xE5, 0xD7, 0xB3, 0x7B, 0xF6,
   0xF1, 0xFF, 0xE3, 0xDB, 0xAB, 0x4B, 0x96, 0x31, 0x62, 0xC4, 0x95,
   0x37, 0x6E, 0xDC, 0xA5, 0x57, 0xAE, 0x41, 0x82, 0x19, 0x32, 0x64,
   0xC8, 0x8D, 0x07, 0x0E, 0x1C, 0x38, 0x70, 0xE0, 0xDD, 0xA7, 0x53,
   0xA6, 0x51, 0xA2, 0x59, 0xB2, 0x79, 0xF2, 0xF9, 0xEF, 0xC3, 0x9B,
   0x2B, 0x56, 0xAC, 0x45, 0x8A, 0x09, 0x12, 0x24, 0x48, 0x90, 0x3D,
   0x7A, 0xF4, 0xF5, 0xF7, 0xF3, 0xFB, 0xEB, 0xCB, 0x8B, 0x0B, 0x16,
   0x2C, 0x58, 0xB0, 0x7D, 0xFA, 0xE9, 0xCF, 0x83, 0x1B, 0x36, 0x6C,
   0xD8, 0xAD, 0x47, 0x8E]"

definition GF_LOG :: "byte list" where
  "GF_LOG = [
   0xFF, 0x00, 0x01, 0x19, 0x02, 0x32, 0x1A, 0xC6, 0x03, 0xDF, 0x33,
   0xEE, 0x1B, 0x68, 0xC7, 0x4B, 0x04, 0x64, 0xE0, 0x0E, 0x34, 0x8D,
   0xEF, 0x81, 0x1C, 0xC1, 0x69, 0xF8, 0xC8, 0x08, 0x4C, 0x71, 0x05,
   0x8A, 0x65, 0x2F, 0xE1, 0x24, 0x0F, 0x21, 0x35, 0x93, 0x8E, 0xDA,
   0xF0, 0x12, 0x82, 0x45, 0x1D, 0xB5, 0xC2, 0x7D, 0x6A, 0x27, 0xF9,
   0xB9, 0xC9, 0x9A, 0x09, 0x78, 0x4D, 0xE4, 0x72, 0xA6, 0x06, 0xBF,
   0x8B, 0x62, 0x66, 0xDD, 0x30, 0xFD, 0xE2, 0x98, 0x25, 0xB3, 0x10,
   0x91, 0x22, 0x88, 0x36, 0xD0, 0x94, 0xCE, 0x8F, 0x96, 0xDB, 0xBD,
   0xF1, 0xD2, 0x13, 0x5C, 0x83, 0x38, 0x46, 0x40, 0x1E, 0x42, 0xB6,
   0xA3, 0xC3, 0x48, 0x7E, 0x6E, 0x6B, 0x3A, 0x28, 0x54, 0xFA, 0x85,
   0xBA, 0x3D, 0xCA, 0x5E, 0x9B, 0x9F, 0x0A, 0x15, 0x79, 0x2B, 0x4E,
   0xD4, 0xE5, 0xAC, 0x73, 0xF3, 0xA7, 0x57, 0x07, 0x70, 0xC0, 0xF7,
   0x8C, 0x80, 0x63, 0x0D, 0x67, 0x4A, 0xDE, 0xED, 0x31, 0xC5, 0xFE,
   0x18, 0xE3, 0xA5, 0x99, 0x77, 0x26, 0xB8, 0xB4, 0x7C, 0x11, 0x44,
   0x92, 0xD9, 0x23, 0x20, 0x89, 0x2E, 0x37, 0x3F, 0xD1, 0x5B, 0x95,
   0xBC, 0xCF, 0xCD, 0x90, 0x87, 0x97, 0xB2, 0xDC, 0xFC, 0xBE, 0x61,
   0xF2, 0x56, 0xD3, 0xAB, 0x14, 0x2A, 0x5D, 0x9E, 0x84, 0x3C, 0x39,
   0x53, 0x47, 0x6D, 0x41, 0xA2, 0x1F, 0x2D, 0x43, 0xD8, 0xB7, 0x7B,
   0xA4, 0x76, 0xC4, 0x17, 0x49, 0xEC, 0x7F, 0x0C, 0x6F, 0xF6, 0x6C,
   0xA1, 0x3B, 0x52, 0x29, 0x9D, 0x55, 0xAA, 0xFB, 0x60, 0x86, 0xB1,
   0xBB, 0xCC, 0x3E, 0x5A, 0xCB, 0x59, 0x5F, 0xB0, 0x9C, 0xA9, 0xA0,
   0x51, 0x0B, 0xF5, 0x16, 0xEB, 0x7A, 0x75, 0x2C, 0xD7, 0x4F, 0xAE,
   0xD5, 0xE9, 0xE6, 0xE7, 0xAD, 0xE8, 0x74, 0xD6, 0xF4, 0xEA, 0xA8,
   0x50, 0x58, 0xAF]"

definition GF_INVERSE :: "byte list" where
  "GF_INVERSE = [
   0x00, 0x01, 0x8E, 0xF4, 0x47, 0xA7, 0x7A, 0xBA, 0xAD, 0x9D, 0xDD,
   0x98, 0x3D, 0xAA, 0x5D, 0x96, 0xD8, 0x72, 0xC0, 0x58, 0xE0, 0x3E,
   0x4C, 0x66, 0x90, 0xDE, 0x55, 0x80, 0xA0, 0x83, 0x4B, 0x2A, 0x6C,
   0xED, 0x39, 0x51, 0x60, 0x56, 0x2C, 0x8A, 0x70, 0xD0, 0x1F, 0x4A,
   0x26, 0x8B, 0x33, 0x6E, 0x48, 0x89, 0x6F, 0x2E, 0xA4, 0xC3, 0x40,
   0x5E, 0x50, 0x22, 0xCF, 0xA9, 0xAB, 0x0C, 0x15, 0xE1, 0x36, 0x5F,
   0xF8, 0xD5, 0x92, 0x4E, 0xA6, 0x04, 0x30, 0x88, 0x2B, 0x1E, 0x16,
   0x67, 0x45, 0x93, 0x38, 0x23, 0x68, 0x8C, 0x81, 0x1A, 0x25, 0x61,
   0x13, 0xC1, 0xCB, 0x63, 0x97, 0x0E, 0x37, 0x41, 0x24, 0x57, 0xCA,
   0x5B, 0xB9, 0xC4, 0x17, 0x4D, 0x52, 0x8D, 0xEF, 0xB3, 0x20, 0xEC,
   0x2F, 0x32, 0x28, 0xD1, 0x11, 0xD9, 0xE9, 0xFB, 0xDA, 0x79, 0xDB,
   0x77, 0x06, 0xBB, 0x84, 0xCD, 0xFE, 0xFC, 0x1B, 0x54, 0xA1, 0x1D,
   0x7C, 0xCC, 0xE4, 0xB0, 0x49, 0x31, 0x27, 0x2D, 0x53, 0x69, 0x02,
   0xF5, 0x18, 0xDF, 0x44, 0x4F, 0x9B, 0xBC, 0x0F, 0x5C, 0x0B, 0xDC,
   0xBD, 0x94, 0xAC, 0x09, 0xC7, 0xA2, 0x1C, 0x82, 0x9F, 0xC6, 0x34,
   0xC2, 0x46, 0x05, 0xCE, 0x3B, 0x0D, 0x3C, 0x9C, 0x08, 0xBE, 0xB7,
   0x87, 0xE5, 0xEE, 0x6B, 0xEB, 0xF2, 0xBF, 0xAF, 0xC5, 0x64, 0x07,
   0x7B, 0x95, 0x9A, 0xAE, 0xB6, 0x12, 0x59, 0xA5, 0x35, 0x65, 0xB8,
   0xA3, 0x9E, 0xD2, 0xF7, 0x62, 0x5A, 0x85, 0x7D, 0xA8, 0x3A, 0x29,
   0x71, 0xC8, 0xF6, 0xF9, 0x43, 0xD7, 0xD6, 0x10, 0x73, 0x76, 0x78,
   0x99, 0x0A, 0x19, 0x91, 0x14, 0x3F, 0xE6, 0xF0, 0x86, 0xB1, 0xE2,
   0xF1, 0xFA, 0x74, 0xF3, 0xB4, 0x6D, 0x21, 0xB2, 0x6A, 0xE3, 0xE7,
   0xB5, 0xEA, 0x03, 0x8F, 0xD3, 0xC9, 0x42, 0xD4, 0xE8, 0x75, 0x7F,
   0xFF, 0x7E, 0xFD]"

text \<open>
  \<open>init_fec\<close> fills the 256 x 256 table \<open>GF_MUL_TABLE\<close>: first every entry
  \<open>[i][j]\<close> with \<open>GF_EXP[(GF_LOG[i] + GF_LOG[j]) % 255]\<close>, then row 0 and
  column 0 with zero. The table is a list of rows.
\<close>

definition mul_table_fill :: "byte list list" where
  "mul_table_fill =
     map (\<lambda>i. map (\<lambda>j. GF_EXP ! ((unat (GF_LOG ! i) + unat (GF_LOG ! j)) mod 255)) [0..<256])
       [0..<256]"

definition zero_row_col :: "nat \<Rightarrow> byte list list \<Rightarrow> byte list list" where
  "zero_row_col i T =
     (let T1 = T[i := (T ! i)[0 := 0]] in T1[0 := (T1 ! 0)[i := 0]])"

definition GF_MUL_TABLE :: "byte list list" where
  "GF_MUL_TABLE = fold zero_row_col [0..<256] mul_table_fill"

text \<open>The table lookup \<open>GF_MUL_TABLE[c][x]\<close> (in the source, \<open>mul_c[x]\<close>).\<close>

definition mul :: "byte \<Rightarrow> byte \<Rightarrow> byte" where
  "mul c x = GF_MUL_TABLE ! unat c ! unat x"

definition gf_inv :: "byte \<Rightarrow> byte" where
  "gf_inv a = GF_INVERSE ! unat a"


section \<open>Linear algebra kernel\<close>

subsection \<open>addmul\<close>

text \<open>
  \<open>addmul(dst, src, c, sz)\<close> computes \<open>dst[] = dst[] + c * src[]\<close>. The two
  pointers advance together, so the model keeps the two buffers (the memory from the
  pointers' initial values on) and one offset \<open>pos\<close>; the pointer comparison
  \<open>dst < lim\<close> is the comparison of the offsets. The length \<open>sz\<close> is a C
  \<open>int\<close>: the offsets are integers, and \<open>lim\<close> may be negative.
  A read or write beyond a buffer is undefined behaviour in the source; the theorems
  about \<open>addmul\<close> assume buffers of at least \<open>sz\<close> bytes.
\<close>

definition xor_at :: "byte list \<Rightarrow> byte list \<Rightarrow> byte \<Rightarrow> nat \<Rightarrow> byte list" where
  "xor_at dst src c j = dst[j := dst ! j XOR mul c (src ! j)]"

text \<open>The loop unrolled 16 times: \<open>for(; dst < lim; dst += 16, src += 16)\<close>.\<close>

function addmul_unrolled :: "byte list \<Rightarrow> byte list \<Rightarrow> byte \<Rightarrow> int \<Rightarrow> int \<Rightarrow> byte list \<times> int" where
  "addmul_unrolled dst src c pos lim =
     (if pos < lim
      then addmul_unrolled (fold (\<lambda>j d. xor_at d src c (nat pos + j)) [0..<16] dst) src c (pos + 16) lim
      else (dst, pos))"
  by pat_completeness auto
termination
  by (relation "measure (\<lambda>(dst, src, c, pos, lim). nat (lim - pos))") auto

text \<open>The final loop: \<open>for(; dst < lim; dst++, src++) *dst ^= mul_c[*src]\<close>.\<close>

function addmul_tail :: "byte list \<Rightarrow> byte list \<Rightarrow> byte \<Rightarrow> int \<Rightarrow> int \<Rightarrow> byte list" where
  "addmul_tail dst src c pos lim =
     (if pos < lim then addmul_tail (xor_at dst src c (nat pos)) src c (pos + 1) lim else dst)"
  by pat_completeness auto
termination
  by (relation "measure (\<lambda>(dst, src, c, pos, lim). nat (lim - pos))") auto

definition addmul :: "byte list \<Rightarrow> byte list \<Rightarrow> byte \<Rightarrow> int \<Rightarrow> byte list" where
  "addmul dst src c sz =
     (if c = 0 then dst
      else
        let lim = sz - 16 + 1;
            (dst1, pos) = addmul_unrolled dst src c 0 lim;
            lim2 = lim + 16 - 1
        in addmul_tail dst1 src c pos lim2)"

text \<open>
  The callers hold lengths as \<open>size_t\<close> and pass them to the \<open>int\<close> parameter
  of \<open>addmul\<close>: the conversion keeps the low 32 bits, read as two's complement.
\<close>

definition to_int :: "nat \<Rightarrow> int" where
  "to_int x = sint (word_of_nat x :: 32 word)"

subsection \<open>invert_matrix\<close>

text \<open>
  The exceptions of the source are values of \<open>fec_error\<close>. \<open>LengthError\<close> and
  \<open>BadAlloc\<close> are the two exceptions of the constructor of \<open>std::vector\<close>.
  \<open>OutOfBounds\<close>, \<open>NullPointer\<close> and \<open>DivideByZero\<close> stand for the places
  where the source, outside its checks, writes outside a vector, writes through the null
  pointer or divides by zero.
\<close>

datatype fec_error =
    InvalidParameters
  | SizeMismatch
  | InsufficientShares
  | InvalidIndex
  | PivotNotFound
  | SingularMatrix
  | OutOfBounds
  | DivideByZero
  | NullPointer
  | LengthError
  | BadAlloc

text \<open>
  \<open>std::vector<byte> v(sz)\<close>. The request fails with \<open>std::length_error\<close> above
  \<open>max_size()\<close>, which is \<open>2\<^sup>6\<^sup>3 - 1\<close> bytes where \<open>size_t\<close> has 64 bits, and
  with \<open>std::bad_alloc\<close> where the allocator does not grant it: \<open>avail\<close>, the largest
  size that it grants, is a parameter. A vector that is granted holds \<open>sz\<close> zero bytes.
\<close>

definition vector_new :: "nat \<Rightarrow> nat \<Rightarrow> fec_error + byte list" where
  "vector_new avail sz =
     (if sz > 2 ^ 63 - 1 then Inl LengthError
      else if sz > avail then Inl BadAlloc
      else Inr (replicate sz 0))"

text \<open>
  \<open>addmul(&buf[0], src, c, size)\<close> on a \<open>std::vector\<close> \<open>buf\<close>, as \<open>encode\<close> and
  \<open>decode\<close> call it. For an empty vector \<open>&buf[0]\<close> is the null pointer. With
  \<open>c = 0\<close> \<open>addmul\<close> returns at once. Otherwise its limit \<open>&dst[sz - 16 + 1]\<close> is,
  for the null pointer, an address at the top of the address space, above \<open>dst\<close>, and
  the unrolled loop writes through the null pointer.
\<close>

definition addmul_vec :: "byte list \<Rightarrow> byte list \<Rightarrow> byte \<Rightarrow> nat \<Rightarrow> fec_error + byte list" where
  "addmul_vec buf src c sz =
     (if buf = [] \<and> c \<noteq> 0 then Inl NullPointer
      else Inr (addmul buf src c (to_int sz)))"

text \<open>A loop over \<open>xs\<close> whose body may fail: the first failure ends it.\<close>

fun fold_err :: "('a \<Rightarrow> 'b \<Rightarrow> fec_error + 'b) \<Rightarrow> 'a list \<Rightarrow> 'b \<Rightarrow> fec_error + 'b" where
  "fold_err f [] b = Inr b"
| "fold_err f (x # xs) b = (case f x b of Inl e \<Rightarrow> Inl e | Inr b' \<Rightarrow> fold_err f xs b')"

text \<open>
  \<open>pivot_searcher::operator()\<close>: the diagonal entry first, then every unused row,
  scanned for a nonzero entry in an unused column. The object's field \<open>ipiv\<close> is
  passed in and returned. The pair returned is \<open>(col, col)\<close> or \<open>(row, i)\<close>.
\<close>

definition pivot_scan_row :: "bool list \<Rightarrow> byte list \<Rightarrow> nat \<Rightarrow> nat \<Rightarrow> nat option" where
  "pivot_scan_row ipiv src k row =
     find (\<lambda>i. \<not> ipiv ! i \<and> src ! (row * k + i) \<noteq> 0) [0..<k]"

fun pivot_scan :: "bool list \<Rightarrow> byte list \<Rightarrow> nat \<Rightarrow> nat list \<Rightarrow> (nat \<times> nat) option" where
  "pivot_scan ipiv src k [] = None"
| "pivot_scan ipiv src k (row # rows) =
     (if ipiv ! row then pivot_scan ipiv src k rows
      else case pivot_scan_row ipiv src k row of
             Some i \<Rightarrow> Some (row, i)
           | None \<Rightarrow> pivot_scan ipiv src k rows)"

definition pivot_search :: "bool list \<Rightarrow> nat \<Rightarrow> byte list \<Rightarrow> fec_error + ((nat \<times> nat) \<times> bool list)" where
  "pivot_search ipiv col src =
     (let k = length ipiv in
      if \<not> ipiv ! col \<and> src ! (col * k + col) \<noteq> 0
      then Inr ((col, col), ipiv[col := True])
      else case pivot_scan ipiv src k [0..<k] of
             Some (row, i) \<Rightarrow> Inr ((row, i), ipiv[i := True])
           | None \<Rightarrow> Inl PivotNotFound)"

text \<open>\<open>std::swap\<close> of rows \<open>r1\<close> and \<open>r2\<close>, entry by entry.\<close>

definition swap_rows :: "byte list \<Rightarrow> nat \<Rightarrow> nat \<Rightarrow> nat \<Rightarrow> byte list" where
  "swap_rows src k r1 r2 =
     fold (\<lambda>i m. m[r1 * k + i := m ! (r2 * k + i), r2 * k + i := m ! (r1 * k + i)]) [0..<k] src"

text \<open>\<open>pivot_row[i] = mul_c[pivot_row[i]]\<close> for every \<open>i\<close>, on row \<open>r\<close>.\<close>

definition scale_row :: "byte list \<Rightarrow> nat \<Rightarrow> nat \<Rightarrow> byte \<Rightarrow> byte list" where
  "scale_row src k r c = fold (\<lambda>i m. m[r * k + i := mul c (m ! (r * k + i))]) [0..<k] src"

text \<open>
  One row of the elimination: \<open>c = p[icol]; p[icol] = 0; addmul(p, pivot_row, c, k)\<close>
  with \<open>p\<close> at row \<open>i\<close> and \<open>pivot_row\<close> at row \<open>icol\<close> of the same array. The
  two rows are different (\<open>i != icol\<close>), so \<open>addmul\<close> does not write what it reads.
\<close>

definition eliminate_row :: "byte list \<Rightarrow> nat \<Rightarrow> nat \<Rightarrow> nat \<Rightarrow> byte list" where
  "eliminate_row src k icol i =
     (let c = src ! (i * k + icol);
          src1 = src[i * k + icol := 0]
      in take (i * k) src1 @ addmul (drop (i * k) src1) (drop (icol * k) src1) c (to_int k))"

definition eliminate :: "byte list \<Rightarrow> nat \<Rightarrow> nat \<Rightarrow> byte list" where
  "eliminate src k icol =
     fold (\<lambda>i m. if i \<noteq> icol then eliminate_row m k icol i else m) [0..<k] src"

record inv_state =
  mat :: "byte list"
  ipiv :: "bool list"
  indxr :: "nat list"
  indxc :: "nat list"
  id_row :: "byte list"

text \<open>
  The body of the loop over the columns. As in the source, \<open>icol\<close> is the first and
  \<open>irow\<close> the second component of the pair that the pivot search returns.
\<close>

definition invert_step :: "nat \<Rightarrow> nat \<Rightarrow> inv_state \<Rightarrow> fec_error + inv_state" where
  "invert_step k col s =
     (case pivot_search (ipiv s) col (mat s) of
        Inl e \<Rightarrow> Inl e
      | Inr ((icol, irow), ipiv') \<Rightarrow>
          let src1 = (if irow \<noteq> icol then swap_rows (mat s) k irow icol else mat s);
              indxr' = (indxr s)[col := irow];
              indxc' = (indxc s)[col := icol];
              c = src1 ! (icol * k + icol)
          in if c = 0 then Inl SingularMatrix
             else
               let src2 = (if c \<noteq> 1
                           then scale_row (src1[icol * k + icol := 1]) k icol (GF_INVERSE ! unat c)
                           else src1);
                   id_row1 = (id_row s)[icol := 1];
                   src3 = (if take k (drop (icol * k) src2) \<noteq> take k id_row1
                           then eliminate src2 k icol else src2)
               in Inr \<lparr>mat = src3, ipiv = ipiv', indxr = indxr', indxc = indxc',
                        id_row = id_row1[icol := 0]\<rparr>)"

fun invert_cols :: "nat \<Rightarrow> nat list \<Rightarrow> inv_state \<Rightarrow> fec_error + inv_state" where
  "invert_cols k [] s = Inr s"
| "invert_cols k (col # cols) s =
     (case invert_step k col s of Inl e \<Rightarrow> Inl e | Inr s' \<Rightarrow> invert_cols k cols s')"

text \<open>The last loop: the columns are swapped back, in the order of the recorded pairs.\<close>

definition swap_cols :: "byte list \<Rightarrow> nat \<Rightarrow> nat \<Rightarrow> nat \<Rightarrow> byte list" where
  "swap_cols src k c1 c2 =
     fold (\<lambda>row m. m[row * k + c1 := m ! (row * k + c2), row * k + c2 := m ! (row * k + c1)])
       [0..<k] src"

definition unscramble :: "nat \<Rightarrow> inv_state \<Rightarrow> byte list" where
  "unscramble k s =
     fold (\<lambda>i m. if indxr s ! i \<noteq> indxc s ! i then swap_cols m k (indxr s ! i) (indxc s ! i) else m)
       [0..<k] (mat s)"

definition invert_matrix :: "byte list \<Rightarrow> nat \<Rightarrow> fec_error + byte list" where
  "invert_matrix src k =
     (case invert_cols k [0..<k]
             \<lparr>mat = src, ipiv = replicate k False, indxr = replicate k 0,
              indxc = replicate k 0, id_row = replicate k 0\<rparr> of
        Inl e \<Rightarrow> Inl e
      | Inr s \<Rightarrow> Inr (unscramble k s))"


section \<open>Vandermonde constructor\<close>

text \<open>
  \<open>create_inverted_vdm(vdm, k)\<close>. The vectors \<open>b\<close> and \<open>c\<close> have \<open>k\<close> zero
  entries. The first loop builds in \<open>c\<close> the coefficients of the product of the
  \<open>x - p_i\<close>, with the points \<open>p_0 = 0\<close> and \<open>p_i = GF_EXP[i]\<close>.
\<close>

definition vdm_poly_step :: "nat \<Rightarrow> nat \<Rightarrow> byte list \<Rightarrow> byte list" where
  "vdm_poly_step k i c =
     (let c1 = fold (\<lambda>j c. c[j := c ! j XOR mul (GF_EXP ! i) (c ! (j + 1))])
                 [k - 1 - (i - 1)..<k - 1] c
      in c1[k - 1 := c1 ! (k - 1) XOR GF_EXP ! i])"

definition vdm_poly :: "nat \<Rightarrow> byte list" where
  "vdm_poly k = fold (vdm_poly_step k) [1..<k] ((replicate k 0)[k - 1 := 0])"

text \<open>
  The synthetic division of one row: \<open>t = 1; b[k-1] = 1\<close>, then for \<open>i\<close> from
  \<open>k-2\<close> down to 0, \<open>b[i] = c[i+1] ^ mul_p_row[b[i+1]]\<close> and
  \<open>t = b[i] ^ mul_p_row[t]\<close>.
\<close>

definition vdm_synth :: "nat \<Rightarrow> byte list \<Rightarrow> byte \<Rightarrow> byte list \<Rightarrow> byte list \<times> byte" where
  "vdm_synth k c p b =
     fold (\<lambda>i (b, t). let b' = b[i := c ! (i + 1) XOR mul p (b ! (i + 1))]
                       in (b', b' ! i XOR mul p t))
       (rev [0..<k - 1]) (b[k - 1 := 1], 1)"

definition vdm_row :: "nat \<Rightarrow> byte list \<Rightarrow> nat \<Rightarrow> byte list \<times> byte list \<Rightarrow> byte list \<times> byte list" where
  "vdm_row k c row = (\<lambda>(vdm, b).
     let p = (if row = 0 then 0 else GF_EXP ! row);
         (b', t) = vdm_synth k c p b
     in (fold (\<lambda>col v. v[col * k + row := mul (GF_INVERSE ! unat t) (b' ! col)]) [0..<k] vdm, b'))"

text \<open>
  With \<open>k = 0\<close> the source skips the degenerate case, allocates two empty vectors and
  executes \<open>c[k-1] = 0\<close>, a write at index \<open>SIZE_MAX\<close> of an empty vector: the
  model returns \<open>OutOfBounds\<close> there.
\<close>

definition create_inverted_vdm :: "byte list \<Rightarrow> nat \<Rightarrow> fec_error + byte list" where
  "create_inverted_vdm vdm k =
     (if k = 1 then Inr (vdm[0 := 1])
      else if k = 0 then Inl OutOfBounds
      else Inr (fst (fold (vdm_row k (vdm_poly k)) [0..<k] (vdm, replicate k 0))))"

section \<open>Encoding-matrix builder, encoder and decoder\<close>

record fec_code =
  code_k :: nat
  code_n :: nat
  enc_matrix :: "byte list"

text \<open>
  The constructor \<open>fec_code::fec_code(k, n)\<close>. The member initializer
  \<open>enc_matrix(n * k)\<close> runs before the body, hence before the checks of \<open>k\<close> and
  \<open>n\<close>; the product \<open>n * k\<close> is one of \<open>size_t\<close>, of 64 bits. Both matrices are
  vectors of \<open>n * k\<close> zero bytes. The product loop runs over the row offsets
  \<open>k*k, k*k + k, ...\<close> below \<open>n*k\<close>, which are the offsets \<open>r * k\<close> of the rows
  \<open>r\<close> from \<open>k\<close> to \<open>n - 1\<close>.
\<close>

definition matmul_entry :: "byte list \<Rightarrow> nat \<Rightarrow> nat \<Rightarrow> nat \<Rightarrow> byte" where
  "matmul_entry tmp_m k row col =
     fold (\<lambda>i acc. acc XOR mul (tmp_m ! (row + i)) (tmp_m ! (col + i * k))) [0..<k] 0"

definition fec_code_new :: "nat \<Rightarrow> nat \<Rightarrow> nat \<Rightarrow> fec_error + fec_code" where
  "fec_code_new avail k n =
     (case vector_new avail ((n * k) mod 2 ^ 64) of
        Inl e \<Rightarrow> Inl e
      | Inr enc0 \<Rightarrow>
          if k > 256 \<or> n > 256 then Inl InvalidParameters
          else if k > n then Inl InvalidParameters
          else
            case vector_new avail ((n * k) mod 2 ^ 64) of
              Inl e \<Rightarrow> Inl e
            | Inr tmp0 \<Rightarrow>
                case create_inverted_vdm tmp0 k of
                  Inl e \<Rightarrow> Inl e
                | Inr tmp1 \<Rightarrow>
                    let tmp_m = fold (\<lambda>i t. t[i := GF_EXP ! (((i div k) * (i mod k)) mod 255)])
                                  [k * k..<n * k] tmp1;
                        enc1 = fold (\<lambda>i e. e[i * (k + 1) := 1]) [0..<k] enc0;
                        enc2 = fold (\<lambda>row e.
                                  fold (\<lambda>col e. e[row + col := matmul_entry tmp_m k row col])
                                    [0..<k] e)
                                 (map (\<lambda>r. r * k) [k..<n]) enc1
                    in Inr \<lparr>code_k = k, code_n = n, enc_matrix = enc2\<rparr>)"

text \<open>
  One call of the output callback: \<open>output(index, total, data, length)\<close>, with the
  \<open>length\<close> bytes at \<open>data\<close> as they are when the callback runs.
\<close>

record emission =
  em_pos :: nat
  em_total :: nat
  em_data :: "byte list"
  em_len :: nat

text \<open>
  A loop over \<open>xs\<close> that calls \<open>output\<close> once per round, with what \<open>f\<close> computes:
  the calls made, and the failure that ended the loop, if any.
\<close>

fun emit_loop :: "(nat \<Rightarrow> fec_error + emission) \<Rightarrow> nat list \<Rightarrow> emission list \<times> fec_error option" where
  "emit_loop f [] = ([], None)"
| "emit_loop f (i # is) =
     (case f i of
        Inl e \<Rightarrow> ([], Some e)
      | Inr em \<Rightarrow> (case emit_loop f is of (es, r) \<Rightarrow> (em # es, r)))"

text \<open>
  \<open>fec_code::encode(input, size, output)\<close>, with \<open>size\<close> the length of the input
  buffer. The result is the sequence of calls of \<open>output\<close> and the failure that ended
  the call, if any. \<open>parity_block\<close> is the body of the second loop up to its call of
  \<open>output\<close>: the vector \<open>fec_buf\<close> of \<open>block_size\<close> zero bytes and the \<open>k\<close> calls of
  \<open>addmul\<close> on it. The vectors of \<open>encode\<close> and of \<open>decode\<close> are no larger than
  what the caller holds or than the matrix of the configuration; the allocator is taken
  to grant them.
\<close>

definition parity_block :: "fec_code \<Rightarrow> byte list \<Rightarrow> nat \<Rightarrow> nat \<Rightarrow> fec_error + byte list" where
  "parity_block cfg input block_size i =
     fold_err (\<lambda>j fec_buf. addmul_vec fec_buf (drop (j * block_size) input)
                                (enc_matrix cfg ! (i * code_k cfg + j)) block_size)
       [0..<code_k cfg] (replicate block_size 0)"

definition encode :: "fec_code \<Rightarrow> byte list \<Rightarrow> emission list \<times> fec_error option" where
  "encode cfg input =
     (let k = code_k cfg; n = code_n cfg; size = length input in
      if k = 0 then ([], Some DivideByZero)
      else if size mod k \<noteq> 0 then ([], Some SizeMismatch)
      else
        let block_size = size div k in
        case emit_loop (\<lambda>i. case parity_block cfg input block_size i of
                                Inl e \<Rightarrow> Inl e
                              | Inr fec_buf \<Rightarrow>
                                  Inr \<lparr>em_pos = i, em_total = n, em_data = fec_buf,
                                       em_len = block_size\<rparr>) [k..<n] of
          (es, r) \<Rightarrow>
            (map (\<lambda>i. \<lparr>em_pos = i, em_total = n,
                          em_data = take block_size (drop (i * block_size) input),
                          em_len = block_size\<rparr>) [0..<k] @ es, r))"

text \<open>
  \<open>fec_code::decode(shares, share_size, output)\<close>. The \<open>std::map\<close> of shares is
  the list of its entries in iteration order, that is with strictly increasing keys;
  \<open>shares_b_iter\<close> is its position from the front and \<open>shares_e_iter\<close> its position
  from the back. Dereferencing an iterator that has passed the last entry is
  \<open>OutOfBounds\<close>.
\<close>

type_synonym shares = "(nat \<times> byte list) list"

record sel_state =
  b_iter :: nat
  e_iter :: nat
  m_dec :: "byte list"
  indexes :: "nat list"
  sharesv :: "byte list list"
  emitted :: "emission list"

definition memcpy :: "byte list \<Rightarrow> nat \<Rightarrow> byte list \<Rightarrow> nat \<Rightarrow> nat \<Rightarrow> byte list" where
  "memcpy dst doff src soff cnt = fold (\<lambda>j d. d[doff + j := src ! (soff + j)]) [0..<cnt] dst"

text \<open>
  The part of the loop body after the share for position \<open>i\<close> has been chosen: the
  index check, the direct output of a primary share or the copy of the encoding
  matrix's row, and the two records \<open>sharesv[i]\<close> and \<open>indexes[i]\<close>.
\<close>

definition select_put :: "fec_code \<Rightarrow> nat \<Rightarrow> nat \<Rightarrow> nat \<times> byte list \<Rightarrow> sel_state \<Rightarrow> fec_error + sel_state" where
  "select_put cfg share_size i entry s =
     (let k = code_k cfg; n = code_n cfg; share_id = fst entry; share_data = snd entry in
      if share_id \<ge> n then Inl InvalidIndex
      else
        let s1 = (if share_id < k
                  then s\<lparr>m_dec := (m_dec s)[i * (k + 1) := 1],
                         emitted := emitted s @
                           [\<lparr>em_pos = share_id, em_total = k,
                             em_data = take share_size share_data, em_len = share_size\<rparr>]\<rparr>
                  else s\<lparr>m_dec := memcpy (m_dec s) (i * k) (enc_matrix cfg) (share_id * k) k\<rparr>)
        in Inr (s1\<lparr>sharesv := (sharesv s1)[i := share_data],
                   indexes := (indexes s1)[i := share_id]\<rparr>))"

definition select_step :: "fec_code \<Rightarrow> shares \<Rightarrow> nat \<Rightarrow> nat \<Rightarrow> sel_state \<Rightarrow> fec_error + sel_state" where
  "select_step cfg shares share_size i s =
     (if b_iter s \<ge> length shares then Inl OutOfBounds
      else if fst (shares ! b_iter s) = i
      then select_put cfg share_size i (shares ! b_iter s) (s\<lparr>b_iter := b_iter s + 1\<rparr>)
      else if e_iter s \<ge> length shares then Inl OutOfBounds
      else select_put cfg share_size i (rev shares ! e_iter s) (s\<lparr>e_iter := e_iter s + 1\<rparr>))"

text \<open>
  The loop over the positions. An exception leaves the loop with the state reached,
  whose field \<open>emitted\<close> holds the calls of \<open>output\<close> made before it.
\<close>

fun select_loop :: "fec_code \<Rightarrow> shares \<Rightarrow> nat \<Rightarrow> nat list \<Rightarrow> sel_state \<Rightarrow> fec_error option \<times> sel_state" where
  "select_loop cfg shares share_size [] s = (None, s)"
| "select_loop cfg shares share_size (i # is) s =
     (case select_step cfg shares share_size i s of
        Inl e \<Rightarrow> (Some e, s)
      | Inr s' \<Rightarrow> select_loop cfg shares share_size is s')"

definition select_init :: "nat \<Rightarrow> sel_state" where
  "select_init k =
     \<lparr>b_iter = 0, e_iter = 0, m_dec = replicate (k * k) 0, indexes = replicate k 0,
      sharesv = replicate k [], emitted = []\<rparr>"

text \<open>
  The loop after the inversion: every position whose share index is at least \<open>k\<close>
  is computed into a vector \<open>buf\<close> of \<open>share_size\<close> zero bytes and output.
  \<open>recover\<close> gives the calls of \<open>output\<close> that the loop makes and the failure that
  ended it, if any.
\<close>

definition recover_block :: "nat \<Rightarrow> nat \<Rightarrow> byte list \<Rightarrow> byte list list \<Rightarrow> nat \<Rightarrow> fec_error + byte list" where
  "recover_block k share_size m sv i =
     fold_err (\<lambda>col buf. addmul_vec buf (sv ! col) (m ! (i * k + col)) share_size)
       [0..<k] (replicate share_size 0)"

definition recover :: "nat \<Rightarrow> nat \<Rightarrow> byte list \<Rightarrow> sel_state \<Rightarrow> emission list \<times> fec_error option" where
  "recover k share_size m s =
     emit_loop (\<lambda>i. case recover_block k share_size m (sharesv s) i of
                        Inl e \<Rightarrow> Inl e
                      | Inr buf \<Rightarrow>
                          Inr \<lparr>em_pos = i, em_total = k, em_data = buf, em_len = share_size\<rparr>)
       (filter (\<lambda>i. indexes s ! i \<ge> k) [0..<length (indexes s)])"

text \<open>
  The result of \<open>decode\<close> is the sequence of calls of \<open>output\<close> and the exception
  that ended the call, if any.
\<close>

definition decode :: "fec_code \<Rightarrow> shares \<Rightarrow> nat \<Rightarrow> emission list \<times> fec_error option" where
  "decode cfg shares share_size =
     (let k = code_k cfg in
      if length shares < k then ([], Some InsufficientShares)
      else
        case select_loop cfg shares share_size [0..<k] (select_init k) of
          (Some e, s) \<Rightarrow> (emitted s, Some e)
        | (None, s) \<Rightarrow>
            (case invert_matrix (m_dec s) k of
               Inl e \<Rightarrow> (emitted s, Some e)
             | Inr m \<Rightarrow>
                 (case recover k share_size m s of (es, r) \<Rightarrow> (emitted s @ es, r))))"

section \<open>The multiplication table\<close>

lemma length_GF_EXP: "length GF_EXP = 510" by (simp add: GF_EXP_def)
lemma length_GF_LOG: "length GF_LOG = 256" by (simp add: GF_LOG_def)
lemma length_GF_INVERSE: "length GF_INVERSE = 256" by (simp add: GF_INVERSE_def)

definition square256 :: "byte list list \<Rightarrow> bool" where
  "square256 T \<longleftrightarrow> length T = 256 \<and> (\<forall>r < 256. length (T ! r) = 256)"

lemma square256_fill: "square256 mul_table_fill"
  by (auto simp: square256_def mul_table_fill_def)

lemma square256_zero: "square256 T \<Longrightarrow> i < 256 \<Longrightarrow> square256 (zero_row_col i T)"
  by (auto simp: square256_def zero_row_col_def Let_def nth_list_update)

lemma zero_row_col_nth:
  assumes "square256 T" "i < 256" "a < 256" "b < 256"
  shows "zero_row_col i T ! a ! b = (if (a = 0 \<and> b = i) \<or> (a = i \<and> b = 0) then 0 else T ! a ! b)"
  using assms by (auto simp: square256_def zero_row_col_def Let_def nth_list_update)

lemma fold_zero_upt:
  assumes "square256 T" "n \<le> 256" "a < 256" "b < 256"
  shows "square256 (fold zero_row_col [0..<n] T) \<and>
         fold zero_row_col [0..<n] T ! a ! b =
           (if (a = 0 \<and> b < n) \<or> (b = 0 \<and> a < n) then 0 else T ! a ! b)"
  using assms
proof (induction n)
  case 0
  then show ?case by simp
next
  case (Suc n)
  then have IH: "square256 (fold zero_row_col [0..<n] T)"
    "fold zero_row_col [0..<n] T ! a ! b =
           (if (a = 0 \<and> b < n) \<or> (b = 0 \<and> a < n) then 0 else T ! a ! b)" by auto
  show ?case using Suc.prems IH
    by (auto simp: square256_zero zero_row_col_nth less_Suc_eq)
qed

lemma mul_eq:
  "mul a b = (if a = 0 \<or> b = 0 then 0
              else GF_EXP ! ((unat (GF_LOG ! unat a) + unat (GF_LOG ! unat b)) mod 255))"
proof -
  have ua: "unat a < 256" and ub: "unat b < 256" using unsigned_less[of a, where ?'a = nat] unsigned_less[of b, where ?'a = nat] by auto
  have "mul a b = (if unat a = 0 \<or> unat b = 0 then 0 else mul_table_fill ! unat a ! unat b)"
    unfolding mul_def GF_MUL_TABLE_def
    using fold_zero_upt[OF square256_fill, of 256 "unat a" "unat b"] ua ub by auto
  moreover have "mul_table_fill ! unat a ! unat b =
      GF_EXP ! ((unat (GF_LOG ! unat a) + unat (GF_LOG ! unat b)) mod 255)"
    using ua ub by (simp add: mul_table_fill_def)
  ultimately show ?thesis by (simp add: unat_eq_0)
qed


section \<open>The fused multiply-XOR\<close>

declare addmul_unrolled.simps [simp del] addmul_tail.simps [simp del]

lemma length_xor_at [simp]: "length (xor_at d src c q) = length d"
  by (simp add: xor_at_def)

lemma xor_at_nth:
  "xor_at d src c q ! x = (if x = q \<and> q < length d then d ! x XOR mul c (src ! x) else d ! x)"
  by (cases "q < length d") (auto simp: xor_at_def nth_list_update list_update_beyond)

lemma xor_fold_nth:
  "length (fold (\<lambda>j d. xor_at d src c (p + j)) [0..<m] dst) = length dst \<and>
   fold (\<lambda>j d. xor_at d src c (p + j)) [0..<m] dst ! x =
     (if p \<le> x \<and> x < p + m \<and> x < length dst then dst ! x XOR mul c (src ! x) else dst ! x)"
proof (induction m)
  case 0
  then show ?case by auto
next
  case (Suc m)
  then show ?case
    by (cases "x = p + m") (auto simp: xor_at_nth)
qed

lemma addmul_unrolled_spec:
  "0 \<le> pos \<Longrightarrow> addmul_unrolled dst src c pos lim = (d, pos') \<Longrightarrow>
     pos \<le> pos' \<and> lim \<le> pos' \<and> (pos' = pos \<or> pos' < lim + 16) \<and> length d = length dst \<and>
     (\<forall>x. d ! x = (if nat pos \<le> x \<and> x < nat pos' \<and> x < length dst
                    then dst ! x XOR mul c (src ! x) else dst ! x))"
proof (induction dst src c pos lim arbitrary: d pos' rule: addmul_unrolled.induct)
  case (1 dst src c pos lim)
  show ?case
  proof (cases "pos < lim")
    case False
    with "1.prems" show ?thesis by (auto simp: addmul_unrolled.simps[of dst src c pos lim])
  next
    case True
    let ?d1 = "fold (\<lambda>j d. xor_at d src c (nat pos + j)) [0..<16] dst"
    from True "1.prems" have run: "addmul_unrolled ?d1 src c (pos + 16) lim = (d, pos')"
      by (simp add: addmul_unrolled.simps[of dst src c pos lim])
    have pos16: "0 \<le> pos + 16" using "1.prems" by simp
    note IH = "1.IH"[OF True pos16 run]
    have len1: "length ?d1 = length dst" using xor_fold_nth[of src c "nat pos" 16 dst] by simp
    have nth1: "\<And>x. ?d1 ! x = (if nat pos \<le> x \<and> x < nat pos + 16 \<and> x < length dst
         then dst ! x XOR mul c (src ! x) else dst ! x)"
      using xor_fold_nth[of src c "nat pos" 16 dst] by simp
    have np: "nat (pos + 16) = nat pos + 16" using "1.prems" by simp
    show ?thesis
    proof (intro conjI allI)
      show "pos \<le> pos'" using IH by simp
      show "lim \<le> pos'" using IH by simp
      show "pos' = pos \<or> pos' < lim + 16" using IH True by auto
      show "length d = length dst" using IH len1 by simp
      fix x
      have "d ! x = (if nat (pos + 16) \<le> x \<and> x < nat pos' \<and> x < length ?d1
                     then ?d1 ! x XOR mul c (src ! x) else ?d1 ! x)"
        using IH by blast
      moreover have "nat pos + 16 \<le> nat pos'" using IH "1.prems" by auto
      ultimately show "d ! x = (if nat pos \<le> x \<and> x < nat pos' \<and> x < length dst
                    then dst ! x XOR mul c (src ! x) else dst ! x)"
        unfolding np len1 nth1 by auto
    qed
  qed
qed

lemma addmul_tail_spec:
  "0 \<le> pos \<Longrightarrow>
     length (addmul_tail dst src c pos lim) = length dst \<and>
     (\<forall>x. addmul_tail dst src c pos lim ! x =
        (if nat pos \<le> x \<and> int x < lim \<and> x < length dst
         then dst ! x XOR mul c (src ! x) else dst ! x))"
proof (induction dst src c pos lim rule: addmul_tail.induct)
  case (1 dst src c pos lim)
  show ?case
  proof (cases "pos < lim")
    case False
    then show ?thesis by (auto simp: addmul_tail.simps[of dst src c pos lim])
  next
    case True
    have p1: "0 \<le> pos + 1" using "1.prems" by simp
    note IH = "1.IH"[OF True p1]
    have unf: "addmul_tail dst src c pos lim = addmul_tail (xor_at dst src c (nat pos)) src c (pos + 1) lim"
      using True by (simp add: addmul_tail.simps[of dst src c pos lim])
    have np: "nat (pos + 1) = Suc (nat pos)" using "1.prems" by simp
    have "length (addmul_tail dst src c pos lim) = length dst"
      unfolding unf using IH by simp
    moreover have "addmul_tail dst src c pos lim ! x =
        (if nat pos \<le> x \<and> int x < lim \<and> x < length dst
         then dst ! x XOR mul c (src ! x) else dst ! x)" for x
    proof (cases "x = nat pos")
      case True
      then show ?thesis unfolding unf using IH \<open>pos < lim\<close> "1.prems" unfolding np
        by (auto simp: xor_at_nth)
    next
      case False
      then show ?thesis unfolding unf using IH \<open>pos < lim\<close> "1.prems" unfolding np
        by (auto simp: xor_at_nth)
    qed
    ultimately show ?thesis by blast
  qed
qed

lemma addmul_nth:
  assumes "0 \<le> sz"
  shows "length (addmul dst src c sz) = length dst"
    and "addmul dst src c sz ! x =
           (if x < nat sz \<and> x < length dst then dst ! x XOR mul c (src ! x) else dst ! x)"
proof -
  have both: "length (addmul dst src c sz) = length dst \<and> addmul dst src c sz ! x =
           (if x < nat sz \<and> x < length dst then dst ! x XOR mul c (src ! x) else dst ! x)"
  proof (cases "c = 0")
    case True
    then show ?thesis by (simp add: addmul_def mul_eq)
  next
    case False
    obtain d pos' where u: "addmul_unrolled dst src c 0 (sz - 16 + 1) = (d, pos')"
      by (cases "addmul_unrolled dst src c 0 (sz - 16 + 1)") auto
    note U = addmul_unrolled_spec[OF _ u, simplified]
    have p0: "0 \<le> pos'" using U by simp
    note T = addmul_tail_spec[OF p0, of d src c sz]
    have am: "addmul dst src c sz = addmul_tail d src c pos' sz"
      using False u by (simp add: addmul_def)
    have le: "pos' \<le> sz" using U assms by auto
    show ?thesis
      unfolding am using T U le assms by auto
  qed
  show "length (addmul dst src c sz) = length dst" using both by simp
  show "addmul dst src c sz ! x =
           (if x < nat sz \<and> x < length dst then dst ! x XOR mul c (src ! x) else dst ! x)"
    using both by simp
qed

lemma addmul_negative: "sz < 0 \<Longrightarrow> addmul dst src c sz = dst"
  by (simp add: addmul_def addmul_unrolled.simps[of dst src c 0] addmul_tail.simps[of dst src c 0])

lemma addmul_zero: "addmul dst src 0 sz = dst"
  by (simp add: addmul_def)

lemma length_addmul [simp]: "length (addmul dst src c sz) = length dst"
proof (cases "0 \<le> sz")
  case True
  then show ?thesis by (rule addmul_nth(1))
next
  case False
  then show ?thesis by (simp add: addmul_negative)
qed

subsection \<open>Loops that may fail\<close>

lemma fold_err_addmul_vec:
  "buf \<noteq> [] \<Longrightarrow>
     fold_err (\<lambda>j b. addmul_vec b (src j) (c j) sz) xs buf =
       Inr (fold (\<lambda>j b. addmul b (src j) (c j) (to_int sz)) xs buf)"
proof (induction xs arbitrary: buf)
  case Nil
  then show ?case by simp
next
  case (Cons x xs)
  have "length (addmul buf (src x) (c x) (to_int sz)) \<noteq> 0" using Cons.prems by simp
  then have "addmul buf (src x) (c x) (to_int sz) \<noteq> []" by (metis list.size(3))
  from Cons.IH[OF this] show ?case using Cons.prems by (simp add: addmul_vec_def)
qed

lemma fold_err_addmul_vec_Nil:
  "fold_err (\<lambda>j b. addmul_vec b (src j) (c j) sz) xs [] =
     (if \<exists>j \<in> set xs. c j \<noteq> 0 then Inl NullPointer else Inr [])"
proof (induction xs)
  case Nil
  then show ?case by simp
next
  case (Cons x xs)
  have "addmul [] (src x) 0 (to_int sz) = []" by (rule addmul_zero)
  then show ?case using Cons by (auto simp: addmul_vec_def)
qed

lemma emit_loop_ok:
  "\<forall>i \<in> set xs. f i = Inr (g i) \<Longrightarrow> emit_loop f xs = (map g xs, None)"
  by (induction xs) simp_all

lemma emit_loop_None:
  "emit_loop f xs = (es, None) \<Longrightarrow> map f xs = map Inr es"
proof (induction xs arbitrary: es)
  case Nil
  then show ?case by simp
next
  case (Cons i xs)
  then show ?case
    by (cases "f i"; cases "emit_loop f xs") (auto split: prod.splits)
qed

lemma emit_loop_positions:
  assumes "emit_loop f xs = (es, None)" and "\<forall>i e. f i = Inr e \<longrightarrow> em_pos e = i"
  shows "map em_pos es = xs"
proof -
  have m: "map f xs = map Inr es" using assms(1) by (rule emit_loop_None)
  then have l: "length xs = length es" by (metis length_map)
  show ?thesis
  proof (rule nth_equalityI)
    show "length (map em_pos es) = length xs" using l by simp
    fix j assume "j < length (map em_pos es)"
    then have j: "j < length es" "j < length xs" using l by simp_all
    have "map f xs ! j = map Inr es ! j" using m by simp
    then have "f (xs ! j) = Inr (es ! j)" using j by simp
    then have "em_pos (es ! j) = xs ! j" using assms(2) by blast
    then show "map em_pos es ! j = xs ! j" using j by simp
  qed
qed

lemma fold_err_addmul_vec_error:
  "fold_err (\<lambda>j b. addmul_vec b (src j) (c j) sz) xs buf = Inl e \<Longrightarrow> e = NullPointer"
proof (induction xs arbitrary: buf)
  case Nil
  then show ?case by simp
next
  case (Cons x xs)
  then show ?case
    by (cases "buf = [] \<and> c x \<noteq> 0") (auto simp: addmul_vec_def)
qed

lemma emit_loop_error:
  "emit_loop f xs = (es, Some e) \<Longrightarrow> \<exists>i \<in> set xs. f i = Inl e"
proof (induction xs arbitrary: es)
  case Nil
  then show ?case by simp
next
  case (Cons i xs)
  then show ?case
    by (cases "f i"; cases "emit_loop f xs") (auto split: prod.splits)
qed

lemma recover_error:
  assumes "recover k share_size m s = (es, Some e)"
  shows "e = NullPointer"
proof -
  from emit_loop_error[OF assms[unfolded recover_def]] obtain i
    where "(case recover_block k share_size m (sharesv s) i of
              Inl e \<Rightarrow> Inl e
            | Inr buf \<Rightarrow>
                Inr \<lparr>em_pos = i, em_total = k, em_data = buf, em_len = share_size\<rparr>) = Inl e"
    by blast
  then have "recover_block k share_size m (sharesv s) i = Inl e"
    by (cases "recover_block k share_size m (sharesv s) i") simp_all
  then show ?thesis
    unfolding recover_block_def by (rule fold_err_addmul_vec_error)
qed

lemma emit_loop_fail:
  "f i = Inl e \<Longrightarrow> \<forall>j \<in> set xs. f j = Inr (g j) \<Longrightarrow>
     emit_loop f (xs @ i # ys) = (map g xs, Some e)"
  by (induction xs) simp_all



text \<open>
  Claim C5. For every byte \<open>c\<close>, every length \<open>sz \<ge> 0\<close> (below 16 only the
  final loop runs) and buffers of at least \<open>sz\<close> bytes, \<open>addmul\<close> replaces
  \<open>dst[j]\<close> by \<open>dst[j] XOR mul c src[j]\<close> for every \<open>j < sz\<close> and leaves
  every other byte as it was; with \<open>c = 0\<close> it returns \<open>dst\<close> unchanged whatever
  the source buffer and the length are.
\<close>

theorem addmul_postcondition:
  assumes "0 \<le> sz" and "nat sz \<le> length dst" and "nat sz \<le> length src"
  shows "addmul dst src c sz =
           map (\<lambda>j. dst ! j XOR mul c (src ! j)) [0..<nat sz] @ drop (nat sz) dst
         \<and> (\<forall>d s l. addmul d s 0 l = d)"
proof -
  have "addmul dst src c sz =
           map (\<lambda>j. dst ! j XOR mul c (src ! j)) [0..<nat sz] @ drop (nat sz) dst"
    using assms
    by (intro nth_equalityI) (auto simp: addmul_nth nth_append)
  then show ?thesis by (simp add: addmul_zero)
qed

theorem addmul_postcondition_witness:
  "addmul [100, 101, 102, 103, 104, 105, 106, 107, 108, 109, 110, 111, 112, 113, 114, 115, 116, 117]
          [1, 2, 3, 4, 5, 6, 7, 8, 9, 10, 11, 12, 13, 14, 15, 16, 17, 18] 2 17
   = [102, 97, 96, 111, 98, 101, 100, 123, 126, 121, 120, 119, 106, 109, 108, 83, 86, 117]"
  using addmul_postcondition [of 17
          "[100, 101, 102, 103, 104, 105, 106, 107, 108, 109, 110, 111, 112, 113, 114, 115, 116, 117]"
          "[1, 2, 3, 4, 5, 6, 7, 8, 9, 10, 11, 12, 13, 14, 15, 16, 17, 18]" 2]
  by (simp add: mul_eq GF_LOG_def GF_EXP_def upt_rec)

section \<open>The field of 256 elements\<close>

text \<open>Facts of the constant tables, each checked entry by entry.\<close>

lemma log_exp_table: "list_all (\<lambda>i. unat (GF_LOG ! unat (GF_EXP ! i)) = i) [0..<255]"
  by code_simp

lemma exp_log_table:
  "list_all (\<lambda>a. GF_EXP ! unat (GF_LOG ! a) = of_nat a \<and> unat (GF_LOG ! a) < 255) [1..<256]"
  by code_simp

lemma exp_nonzero_table: "list_all (\<lambda>i. GF_EXP ! i \<noteq> 0) [0..<255]"
  by code_simp

lemma inverse_table:
  "list_all (\<lambda>a. GF_INVERSE ! a \<noteq> 0 \<and>
      (unat (GF_LOG ! a) + unat (GF_LOG ! unat (GF_INVERSE ! a))) mod 255 = 0) [1..<256]"
  by code_simp

definition xtime :: "byte \<Rightarrow> byte" where
  "xtime b = push_bit 1 b XOR (if bit b 7 then 0x1D else 0)"

lemma xtime_table:
  "list_all (\<lambda>a. GF_EXP ! ((1 + unat (GF_LOG ! a)) mod 255) = xtime (of_nat a)) [1..<256]"
  by code_simp

lemma byte_cases:
  assumes "list_all Q [1..<256]" and "(a :: byte) \<noteq> 0"
  shows "Q (unat a)"
proof -
  have "unat a < 256" using unsigned_less[of a, where ?'a = nat] by simp
  moreover have "unat a \<noteq> 0" using assms(2) by (simp add: unat_eq_0)
  ultimately have "unat a \<in> set [1..<256]" by auto
  with assms(1) show ?thesis unfolding list_all_iff by blast
qed

lemma unat_byte_less: "unat (a :: byte) < 256"
  using unsigned_less[of a, where ?'a = nat] by simp

lemma exp_log: "(a :: byte) \<noteq> 0 \<Longrightarrow> GF_EXP ! unat (GF_LOG ! unat a) = a"
  using byte_cases[OF exp_log_table, of a] by simp

lemma log_less: "(a :: byte) \<noteq> 0 \<Longrightarrow> unat (GF_LOG ! unat a) < 255"
  using byte_cases[OF exp_log_table, of a] by simp

lemma log_exp: "i < 255 \<Longrightarrow> unat (GF_LOG ! unat (GF_EXP ! i)) = i"
  using log_exp_table unfolding list_all_iff by simp

lemma exp_nonzero: "i < 255 \<Longrightarrow> GF_EXP ! i \<noteq> 0"
  using exp_nonzero_table unfolding list_all_iff by simp

lemma mul_zero_left [simp]: "mul 0 b = 0"
  by (simp add: mul_eq)

lemma mul_zero_right [simp]: "mul a 0 = 0"
  by (simp add: mul_eq)

lemma mul_commute: "mul a b = mul b a"
  by (simp add: mul_eq add.commute disj_commute)

lemma mul_nonzero: "a \<noteq> 0 \<Longrightarrow> b \<noteq> 0 \<Longrightarrow> mul a b \<noteq> 0"
  by (simp add: mul_eq exp_nonzero)

lemma log_mul:
  "a \<noteq> 0 \<Longrightarrow> b \<noteq> 0 \<Longrightarrow>
     unat (GF_LOG ! unat (mul a b)) = (unat (GF_LOG ! unat a) + unat (GF_LOG ! unat b)) mod 255"
  by (simp add: mul_eq log_exp)

lemma mul_assoc: "mul (mul a b) c = mul a (mul b c)"
proof (cases "a = 0 \<or> b = 0 \<or> c = 0")
  case True
  then show ?thesis by auto
next
  case False
  then have nz: "a \<noteq> 0" "b \<noteq> 0" "c \<noteq> 0" by auto
  have "mul (mul a b) c = GF_EXP ! ((unat (GF_LOG ! unat (mul a b)) + unat (GF_LOG ! unat c)) mod 255)"
    using nz mul_nonzero[of a b] by (simp add: mul_eq[of "mul a b" c])
  also have "\<dots> = GF_EXP ! ((unat (GF_LOG ! unat a) + unat (GF_LOG ! unat b) + unat (GF_LOG ! unat c)) mod 255)"
    using nz by (simp add: log_mul mod_add_left_eq)
  also have "\<dots> = GF_EXP ! ((unat (GF_LOG ! unat a) + unat (GF_LOG ! unat (mul b c))) mod 255)"
    using nz by (simp add: log_mul mod_add_right_eq add.assoc)
  also have "\<dots> = mul a (mul b c)"
    using nz mul_nonzero[of b c] by (simp add: mul_eq[of a "mul b c"])
  finally show ?thesis .
qed

lemma log_one: "unat (GF_LOG ! Suc 0) = 0"
  by (simp add: GF_LOG_def)

lemma mul_one_left [simp]: "mul 1 b = b"
  by (cases "b = 0") (simp_all add: mul_eq[of 1 b] log_one log_less exp_log)

lemma mul_one_right [simp]: "mul a 1 = a"
  by (simp add: mul_commute[of a 1])

lemma mul_inv: "a \<noteq> 0 \<Longrightarrow> mul a (gf_inv a) = 1"
proof -
  assume nz: "a \<noteq> 0"
  have "GF_INVERSE ! unat a \<noteq> 0 \<and>
      (unat (GF_LOG ! unat a) + unat (GF_LOG ! unat (GF_INVERSE ! unat a))) mod 255 = 0"
    using byte_cases[OF inverse_table, of a] nz by simp
  then show ?thesis using nz
    by (simp add: mul_eq gf_inv_def GF_EXP_def)
qed

lemma gf_inv_zero: "gf_inv 0 = 0"
  by (simp add: gf_inv_def GF_INVERSE_def)

lemma xtime_mul: "mul 2 b = xtime b"
proof (cases "b = 0")
  case True
  then show ?thesis by (simp add: xtime_def)
next
  case False
  have l2: "unat (GF_LOG ! 2) = 1" by (simp add: GF_LOG_def)
  show ?thesis using byte_cases[OF xtime_table, of b] False
    by (simp add: mul_eq[of 2 b] l2)
qed

lemma xtime_xor: "xtime (a XOR b) = xtime a XOR xtime b"
  by (simp add: xtime_def push_bit_xor bit_xor_iff ac_simps)

lemma mul_two_xor: "mul 2 (a XOR b) = mul 2 a XOR mul 2 b"
  by (simp add: xtime_mul xtime_xor)

text \<open>Multiplication by a nonzero element is a power of the multiplication by 2.\<close>

lemma mul_exp_funpow: "i < 255 \<Longrightarrow> mul (GF_EXP ! i) b = (mul 2 ^^ i) b"
proof (induction i)
  case 0
  then show ?case by (simp add: GF_EXP_def)
next
  case (Suc i)
  have l2: "unat (GF_LOG ! 2) = 1" by (simp add: GF_LOG_def)
  have "GF_EXP ! Suc i = mul 2 (GF_EXP ! i)"
    using Suc.prems by (simp add: mul_eq[of 2] exp_nonzero l2 log_exp)
  then show ?case using Suc by (simp add: mul_assoc)
qed

lemma funpow_mul_two_xor: "(mul 2 ^^ i) (a XOR b) = (mul 2 ^^ i) a XOR (mul 2 ^^ i) b"
  by (induction i) (simp_all add: mul_two_xor)

lemma mul_xor_right: "mul a (b XOR c) = mul a b XOR mul a c"
proof (cases "a = 0")
  case True
  then show ?thesis by simp
next
  case False
  then have "mul a (b XOR c) = mul (GF_EXP ! unat (GF_LOG ! unat a)) (b XOR c)"
    by (simp add: exp_log)
  also have "\<dots> = (mul 2 ^^ unat (GF_LOG ! unat a)) (b XOR c)"
    using False by (simp add: mul_exp_funpow log_less)
  also have "\<dots> = mul (GF_EXP ! unat (GF_LOG ! unat a)) b XOR mul (GF_EXP ! unat (GF_LOG ! unat a)) c"
    using False by (simp add: mul_exp_funpow log_less funpow_mul_two_xor)
  finally show ?thesis using False by (simp add: exp_log)
qed

lemma mul_xor_left: "mul (a XOR b) c = mul a c XOR mul b c"
  by (simp add: mul_commute[of _ c] mul_xor_right)

text \<open>
  Claim C6. With the tables as \<open>init_fec\<close> leaves them: every nonzero byte times its
  entry of \<open>GF_INVERSE\<close> is 1; a byte XOR itself is 0; the multiplication is
  commutative and distributes over XOR; a zero operand gives zero.
\<close>

theorem field_correctness:
  "(a \<noteq> 0 \<longrightarrow> mul a (gf_inv a) = 1) \<and> a XOR a = 0 \<and> mul a b = mul b a \<and>
   mul a (b XOR c) = mul a b XOR mul a c \<and> mul 0 b = 0 \<and> mul a 0 = 0"
  using mul_inv[of a] mul_commute[of a b] mul_xor_right[of a b c] by simp

theorem field_correctness_witness:
  "mul 2 (gf_inv 2) = 1 \<and> (2 :: byte) XOR 2 = 0 \<and> mul 2 3 = mul 3 2 \<and>
   mul 2 (3 XOR 4) = mul 2 3 XOR mul 2 4 \<and> mul 0 3 = 0 \<and> mul 2 0 = 0"
  using field_correctness[of 2 3 4] by simp

section \<open>Loops that fill a vector\<close>

lemma length_fold_update [simp]:
  "length (fold (\<lambda>i e. e[f i := v i e]) xs e) = length e"
  by (induction xs arbitrary: e) simp_all

lemma fold_update_miss:
  "\<forall>i \<in> set xs. f i \<noteq> x \<Longrightarrow> fold (\<lambda>i e. e[f i := v i e]) xs e ! x = e ! x"
  by (induction xs arbitrary: e) simp_all

lemma fold_update_hit:
  "i \<in> set xs \<Longrightarrow> inj_on f (set xs) \<Longrightarrow> f i < length e \<Longrightarrow>
     fold (\<lambda>i e. e[f i := v i]) xs e ! f i = v i"
proof (induction xs arbitrary: e)
  case Nil
  then show ?case by simp
next
  case (Cons a xs)
  have inj: "inj_on f (set xs)" using Cons.prems(2) by (simp add: inj_on_def)
  show ?case
  proof (cases "i \<in> set xs")
    case True
    then show ?thesis using Cons.IH[OF True inj] Cons.prems(3) by simp
  next
    case False
    then have ia: "i = a" using Cons.prems(1) by simp
    have "\<forall>j \<in> set xs. f j \<noteq> f i"
    proof
      fix j assume j: "j \<in> set xs"
      show "f j \<noteq> f i"
      proof
        assume "f j = f i"
        then have "j = i" using Cons.prems(2) j ia by (auto simp: inj_on_def)
        with j False show False by simp
      qed
    qed
    then have "fold (\<lambda>i e. e[f i := v i]) xs (e[f a := v a]) ! f i = (e[f a := v a]) ! f i"
      by (rule fold_update_miss)
    then show ?thesis using ia Cons.prems(3) by simp
  qed
qed

section \<open>The constructor\<close>

lemma length_vdm_row [simp]:
  "length (fst (vdm_row k c row vb)) = length (fst vb)"
  by (cases vb) (simp add: vdm_row_def Let_def split: prod.splits)

lemma length_fold_vdm_row [simp]:
  "length (fst (fold (vdm_row k c) rows vb)) = length (fst vb)"
  by (induction rows arbitrary: vb) simp_all

lemma create_inverted_vdm_ok:
  "0 < k \<Longrightarrow> \<exists>t. create_inverted_vdm v k = Inr t \<and> length t = length v"
  by (simp add: create_inverted_vdm_def)

lemma create_inverted_vdm_zero: "create_inverted_vdm v 0 = Inl OutOfBounds"
  by (simp add: create_inverted_vdm_def)

lemma length_fold_matmul [simp]:
  "length (fold (\<lambda>row e. fold (\<lambda>col e. e[row + col := w row col]) cols e) rows e) = length e"
  by (induction rows arbitrary: e) simp_all

lemma fold_matmul_miss:
  "\<forall>row \<in> set rows. \<forall>col \<in> set cols. row + col \<noteq> x \<Longrightarrow>
     fold (\<lambda>row e. fold (\<lambda>col e. e[row + col := w row col]) cols e) rows e ! x = e ! x"
proof (induction rows arbitrary: e)
  case Nil
  then show ?case by simp
next
  case (Cons r rows)
  have "fold (\<lambda>col e. e[r + col := w r col]) cols e ! x = e ! x"
    using Cons.prems by (intro fold_update_miss) simp
  then show ?case using Cons by simp
qed

lemma small_product:
  assumes "k \<le> 256" and "n \<le> (256 :: nat)"
  shows "n * k \<le> 65536" and "(n * k) mod 2 ^ 64 = n * k" and "\<not> n * k > 2 ^ 63 - 1"
proof -
  have "n * k \<le> 256 * 256" using assms by (intro mult_le_mono) simp_all
  then show a: "n * k \<le> 65536" by simp
  then show "(n * k) mod 2 ^ 64 = n * k" by simp
  show "\<not> n * k > 2 ^ 63 - 1" using a by simp
qed

text \<open>
  Where the checks pass and the allocator grants the matrix, the constructor is the
  construction of the matrix.
\<close>

lemma fec_code_new_eq:
  assumes "k \<le> 256" and "n \<le> 256" and "n * k \<le> avail"
  shows "fec_code_new avail k n =
     (if k > n then Inl InvalidParameters
      else
        case create_inverted_vdm (replicate (n * k) 0) k of
          Inl e \<Rightarrow> Inl e
        | Inr tmp1 \<Rightarrow>
            let tmp_m = fold (\<lambda>i t. t[i := GF_EXP ! (((i div k) * (i mod k)) mod 255)])
                          [k * k..<n * k] tmp1;
                enc1 = fold (\<lambda>i e. e[i * (k + 1) := 1]) [0..<k] (replicate (n * k) 0);
                enc2 = fold (\<lambda>row e.
                              fold (\<lambda>col e. e[row + col := matmul_entry tmp_m k row col]) [0..<k] e)
                         (map (\<lambda>r. r * k) [k..<n]) enc1
            in Inr \<lparr>code_k = k, code_n = n, enc_matrix = enc2\<rparr>)"
proof -
  note P = small_product[OF assms(1,2)]
  have v: "vector_new avail (n * k) = Inr (replicate (n * k) 0)"
    using P(3) assms(3) by (simp add: vector_new_def)
  show ?thesis
    unfolding fec_code_new_def P(2) v using assms(1,2) by simp
qed

lemma fec_code_new_granted:
  assumes "fec_code_new avail k n = Inr cfg"
  shows "k \<le> 256" and "n \<le> 256" and "k \<le> n" and "n * k \<le> avail"
proof -
  obtain enc0 where v: "vector_new avail ((n * k) mod 2 ^ 64) = Inr enc0"
    using assms by (cases "vector_new avail ((n * k) mod 2 ^ 64)") (simp_all add: fec_code_new_def)
  have range: "\<not> (k > 256 \<or> n > 256)" "\<not> k > n"
    using assms unfolding fec_code_new_def v by (auto split: if_splits)
  show kn: "k \<le> 256" "n \<le> 256" "k \<le> n" using range by auto
  have "(n * k) mod 2 ^ 64 \<le> avail"
    using v by (auto simp: vector_new_def split: if_splits)
  then show "n * k \<le> avail" using small_product(2)[OF kn(1,2)] by simp
qed

lemma fec_code_new_fields:
  assumes "fec_code_new avail k n = Inr cfg"
  shows "code_k cfg = k" and "code_n cfg = n" and "0 < k" and "k \<le> n" and "n \<le> 256"
    and "length (enc_matrix cfg) = n * k"
proof -
  note R = fec_code_new_granted[OF assms]
  note E = assms[unfolded fec_code_new_eq[OF R(1,2,4)]]
  have k0: "0 < k"
  proof (rule ccontr)
    assume "\<not> 0 < k"
    then have "k = 0" by simp
    with E show False
      by (simp add: create_inverted_vdm_zero)
  qed
  obtain t where t: "create_inverted_vdm (replicate (n * k) 0) k = Inr t"
    using create_inverted_vdm_ok[OF k0] by blast
  show "0 < k" by (rule k0)
  show "k \<le> n" "n \<le> 256" using R by auto
  show "code_k cfg = k" "code_n cfg = n" "length (enc_matrix cfg) = n * k"
    using E R(3) t by (auto simp: Let_def)
qed

lemma fec_code_new_ok:
  assumes "0 < k" and "k \<le> n" and "n \<le> 256" and "n * k \<le> avail"
  shows "\<exists>cfg. fec_code_new avail k n = Inr cfg"
proof -
  obtain t where t: "create_inverted_vdm (replicate (n * k) 0) k = Inr t"
    using create_inverted_vdm_ok[OF assms(1)] by blast
  have k: "k \<le> 256" using assms(2,3) by simp
  show ?thesis
    unfolding fec_code_new_eq[OF k assms(3,4)] using assms(2) t by (simp add: Let_def)
qed

lemma diag_index:
  assumes "i < k" and "j < k" and "i' < (k :: nat)"
  shows "i' * (k + 1) = i * k + j \<longleftrightarrow> i' = i \<and> i' = j"
proof
  assume eq: "i' * (k + 1) = i * k + j"
  then have e2: "i' * k + i' = i * k + j" by (simp add: algebra_simps)
  have "(i' * k + i') div k = i'" using assms by simp
  moreover have "(i * k + j) div k = i" using assms by simp
  ultimately have "i' = i" using e2 by simp
  with e2 show "i' = i \<and> i' = j" by simp
next
  assume "i' = i \<and> i' = j"
  then show "i' * (k + 1) = i * k + j" by (simp add: algebra_simps)
qed

lemma enc_matrix_top:
  assumes "fec_code_new avail k n = Inr cfg" and "i < k" and "j < k"
  shows "enc_matrix cfg ! (i * k + j) = (if i = j then 1 else 0)"
proof -
  note F = fec_code_new_fields[OF assms(1)]
  obtain t where t: "create_inverted_vdm (replicate (n * k) 0) k = Inr t"
    using create_inverted_vdm_ok[OF F(3)] by blast
  define enc1 where "enc1 = fold (\<lambda>i e. e[i * (k + 1) := 1]) [0..<k] (replicate (n * k) (0 :: byte))"
  have lt: "i * k + j < k * k"
  proof -
    have "i * k + j < i * k + k" using assms(3) by simp
    also have "\<dots> = Suc i * k" by simp
    also have "\<dots> \<le> k * k" using assms(2) by (metis Suc_leI mult_le_mono1)
    finally show ?thesis .
  qed
  have kk: "k * k \<le> n * k" using F(4) by simp
  have miss: "\<forall>row \<in> set (map (\<lambda>r. r * k) [k..<n]). \<forall>col \<in> set [0..<k]. row + col \<noteq> i * k + j"
  proof (intro ballI)
    fix row col assume "row \<in> set (map (\<lambda>r. r * k) [k..<n])" "col \<in> set [0..<k]"
    then obtain r where "row = r * k" "k \<le> r" by auto
    then have "k * k \<le> row + col" by (simp add: trans_le_add1)
    with lt show "row + col \<noteq> i * k + j" by simp
  qed
  note R = fec_code_new_granted[OF assms(1)]
  have "enc_matrix cfg ! (i * k + j) = enc1 ! (i * k + j)"
    using assms(1)[unfolded fec_code_new_eq[OF R(1,2,4)]] F(4,5) t fold_matmul_miss[OF miss]
    by (auto simp: Let_def enc1_def)
  also have "\<dots> = (if i = j then 1 else 0)"
  proof (cases "i = j")
    case True
    have "i * k + j < n * k" using lt kk by (rule less_le_trans)
    then have a3: "i * (k + 1) < length (replicate (n * k) (0 :: byte))"
      using True by (simp add: algebra_simps)
    have a2: "inj_on (\<lambda>i. i * (k + 1)) (set [0..<k])"
      by (rule inj_onI) (simp only: mult_cancel2, simp)
    have a1: "i \<in> set [0..<k]" using assms(2) by simp
    have "enc1 ! (i * (k + 1)) = 1"
      unfolding enc1_def
      by (rule fold_update_hit[where v = "\<lambda>_. 1" and f = "\<lambda>i. i * (k + 1)", OF a1 a2 a3])
    then show ?thesis using True by (simp add: algebra_simps)
  next
    case False
    have "\<forall>i' \<in> set [0..<k]. i' * (k + 1) \<noteq> i * k + j"
      using diag_index[OF assms(2,3)] False by auto
    then have "enc1 ! (i * k + j) = replicate (n * k) 0 ! (i * k + j)"
      unfolding enc1_def by (rule fold_update_miss)
    then show ?thesis using False lt kk by simp
  qed
  finally show ?thesis .
qed

section \<open>Concrete configurations\<close>

text \<open>
  Evaluation uses the characterisation \<open>mul_eq\<close> of a table entry instead of the
  construction of the whole table.
\<close>

declare mul_eq [code]

text \<open>In the examples the allocator grants up to \<open>65536\<close> bytes, the largest matrix.\<close>

lemma fec_code_new_3_5:
  "fec_code_new 65536 3 5 =
     Inr \<lparr>code_k = 3, code_n = 5,
          enc_matrix = [1, 0, 0, 0, 1, 0, 0, 0, 1, 15, 8, 6, 45, 48, 28]\<rparr>"
proof -
  have h: "(3 :: nat) \<le> 256" "(5 :: nat) \<le> 256" "(5 :: nat) * 3 \<le> 65536" by simp_all
  show ?thesis unfolding fec_code_new_eq[OF h] by code_simp
qed

lemma fec_code_new_1_2:
  "fec_code_new 65536 1 2 = Inr \<lparr>code_k = 1, code_n = 2, enc_matrix = [1, 1]\<rparr>"
proof -
  have h: "(1 :: nat) \<le> 256" "(2 :: nat) \<le> 256" "(2 :: nat) * 1 \<le> 65536" by simp_all
  show ?thesis unfolding fec_code_new_eq[OF h] by code_simp
qed

section \<open>Construction\<close>

text \<open>The outcomes of the constructor, case by case.\<close>

lemma construct_outcomes:
  shows "(n * k) mod 2 ^ 64 > 2 ^ 63 - 1 \<Longrightarrow> fec_code_new avail k n = Inl LengthError"
    and "(n * k) mod 2 ^ 64 \<le> 2 ^ 63 - 1 \<Longrightarrow> (n * k) mod 2 ^ 64 > avail \<Longrightarrow>
           fec_code_new avail k n = Inl BadAlloc"
    and "(n * k) mod 2 ^ 64 \<le> 2 ^ 63 - 1 \<Longrightarrow> (n * k) mod 2 ^ 64 \<le> avail \<Longrightarrow>
           k > 256 \<or> n > 256 \<or> k > n \<Longrightarrow> fec_code_new avail k n = Inl InvalidParameters"
    and "n \<le> 256 \<Longrightarrow> fec_code_new avail 0 n = Inl OutOfBounds"
    and "1 \<le> k \<Longrightarrow> k \<le> n \<Longrightarrow> n \<le> 256 \<Longrightarrow> n * k \<le> avail \<Longrightarrow>
           \<exists>cfg. fec_code_new avail k n = Inr cfg \<and> code_k cfg = k \<and> code_n cfg = n \<and>
                 length (enc_matrix cfg) = n * k"
proof -
  show "(n * k) mod 2 ^ 64 > 2 ^ 63 - 1 \<Longrightarrow> fec_code_new avail k n = Inl LengthError"
    by (simp add: fec_code_new_def vector_new_def)
  show "(n * k) mod 2 ^ 64 \<le> 2 ^ 63 - 1 \<Longrightarrow> (n * k) mod 2 ^ 64 > avail \<Longrightarrow>
           fec_code_new avail k n = Inl BadAlloc"
    by (simp add: fec_code_new_def vector_new_def)
  show "(n * k) mod 2 ^ 64 \<le> 2 ^ 63 - 1 \<Longrightarrow> (n * k) mod 2 ^ 64 \<le> avail \<Longrightarrow>
           k > 256 \<or> n > 256 \<or> k > n \<Longrightarrow> fec_code_new avail k n = Inl InvalidParameters"
    by (auto simp: fec_code_new_def vector_new_def)
  show "fec_code_new avail 0 n = Inl OutOfBounds" if n: "n \<le> 256"
  proof -
    have h: "(0 :: nat) \<le> 256" "n * 0 \<le> avail" by simp_all
    show ?thesis
      unfolding fec_code_new_eq[OF h(1) n h(2)] by (simp add: create_inverted_vdm_zero)
  qed
  show "\<exists>cfg. fec_code_new avail k n = Inr cfg \<and> code_k cfg = k \<and> code_n cfg = n \<and>
                 length (enc_matrix cfg) = n * k"
    if h: "1 \<le> k" "k \<le> n" "n \<le> 256" "n * k \<le> avail"
  proof -
    have "0 < k" using h(1) by simp
    from fec_code_new_ok[OF this h(2,3,4)] obtain cfg
      where cfg: "fec_code_new avail k n = Inr cfg" by blast
    then show ?thesis using fec_code_new_fields[OF cfg] by blast
  qed
qed

text \<open>
  Claim C7. Two inputs on which the constructor does neither of the two things the
  claim allows. The pair \<open>k = 0\<close>, \<open>n = 1\<close> passes the three checks, and
  \<open>create_inverted_vdm\<close> then writes \<open>c[k - 1]\<close> outside an empty vector. And the
  vector of \<open>n * k\<close> bytes is requested before the checks are made: for
  \<open>k = 2\<^sup>6\<^sup>2\<close> and \<open>n = 2\<close> the request is above \<open>max_size()\<close> and the constructor
  ends with \<open>std::length_error\<close>; for \<open>k = 2\<^sup>4\<^sup>0\<close> and \<open>n = 2\<^sup>2\<^sup>0\<close>, with an
  allocator that grants \<open>65536\<close> bytes, it ends with \<open>std::bad_alloc\<close>. Neither is the
  invalid-parameters exception.
\<close>

theorem construct_defects:
  "fec_code_new 65536 0 1 = Inl OutOfBounds \<and>
   fec_code_new 65536 4611686018427387904 2 = Inl LengthError \<and>
   fec_code_new 65536 1099511627776 1048576 = Inl BadAlloc"
proof -
  have a: "fec_code_new 65536 0 1 = Inl OutOfBounds"
    by (rule construct_outcomes(4)) simp
  have b: "fec_code_new 65536 4611686018427387904 2 = Inl LengthError"
    by (rule construct_outcomes(1)) simp
  have c: "fec_code_new 65536 1099511627776 1048576 = Inl BadAlloc"
    by (rule construct_outcomes(2)) simp_all
  show ?thesis using a b c by (intro conjI)
qed

section \<open>The systematic property\<close>

lemma encode_primary:
  assumes "0 < code_k cfg" and "length input mod code_k cfg = 0"
  shows "\<exists>es. fst (encode cfg input) =
           map (\<lambda>i. \<lparr>em_pos = i, em_total = code_n cfg,
                      em_data = take (length input div code_k cfg)
                                  (drop (i * (length input div code_k cfg)) input),
                      em_len = length input div code_k cfg\<rparr>) [0..<code_k cfg] @ es"
  using assms by (simp add: encode_def Let_def split: prod.splits)

text \<open>
  Claim C2. For every configuration the constructor returns, the top \<open>k\<close> rows of
  the encoding matrix are the identity matrix; and for every input whose length is a
  multiple of \<open>k\<close>, the first \<open>k\<close> calls of \<open>output\<close> that \<open>encode\<close> makes are there,
  and call \<open>i\<close>, for \<open>i < k\<close>, carries the index \<open>i\<close> and the \<open>i\<close>-th slice of the
  input, of \<open>length / k\<close> bytes. These calls come before the first parity block is
  computed, so they are made whether or not the second loop fails.
\<close>

theorem systematic_property:
  assumes "fec_code_new avail k n = Inr cfg" and "length input mod k = 0"
  shows "(\<forall>i<k. \<forall>j<k. enc_matrix cfg ! (i * k + j) = (if i = j then 1 else 0)) \<and>
         k \<le> length (fst (encode cfg input)) \<and>
         (\<forall>i<k. fst (encode cfg input) ! i =
               \<lparr>em_pos = i, em_total = n,
                em_data = take (length input div k) (drop (i * (length input div k)) input),
                em_len = length input div k\<rparr>)"
proof -
  note F = fec_code_new_fields[OF assms(1)]
  have top: "\<forall>i<k. \<forall>j<k. enc_matrix cfg ! (i * k + j) = (if i = j then 1 else 0)"
    using enc_matrix_top[OF assms(1)] by blast
  have "0 < code_k cfg" "length input mod code_k cfg = 0" using F assms(2) by simp_all
  from encode_primary[OF this] obtain es
    where es: "fst (encode cfg input) =
           map (\<lambda>i. \<lparr>em_pos = i, em_total = n,
                      em_data = take (length input div k) (drop (i * (length input div k)) input),
                      em_len = length input div k\<rparr>) [0..<k] @ es"
    unfolding F(1,2) by blast
  have "k \<le> length (fst (encode cfg input))" unfolding es by simp
  moreover have "\<forall>i<k. fst (encode cfg input) ! i =
               \<lparr>em_pos = i, em_total = n,
                em_data = take (length input div k) (drop (i * (length input div k)) input),
                em_len = length input div k\<rparr>"
    unfolding es by (simp add: nth_append)
  ultimately show ?thesis using top by blast
qed

theorem systematic_property_witness:
  "enc_matrix \<lparr>code_k = 3, code_n = 5,
      enc_matrix = [1, 0, 0, 0, 1, 0, 0, 0, 1, 15, 8, 6, 45, 48, 28]\<rparr> ! (2 * 3 + 2) = 1 \<and>
   enc_matrix \<lparr>code_k = 3, code_n = 5,
      enc_matrix = [1, 0, 0, 0, 1, 0, 0, 0, 1, 15, 8, 6, 45, 48, 28]\<rparr> ! (2 * 3 + 1) = 0 \<and>
   (3 :: nat) \<le> length (fst (encode \<lparr>code_k = 3, code_n = 5,
               enc_matrix = [1, 0, 0, 0, 1, 0, 0, 0, 1, 15, 8, 6, 45, 48, 28]\<rparr>
            [0, 1, 2, 3, 4, 5, 6, 7, 8, 9, 10, 11])) \<and>
   fst (encode \<lparr>code_k = 3, code_n = 5,
               enc_matrix = [1, 0, 0, 0, 1, 0, 0, 0, 1, 15, 8, 6, 45, 48, 28]\<rparr>
            [0, 1, 2, 3, 4, 5, 6, 7, 8, 9, 10, 11]) ! 2 =
     \<lparr>em_pos = 2, em_total = 5, em_data = [8, 9, 10, 11], em_len = 4\<rparr> \<and>
   fst (encode \<lparr>code_k = 3, code_n = 5,
               enc_matrix = [1, 0, 0, 0, 1, 0, 0, 0, 1, 15, 8, 6, 45, 48, 28]\<rparr> []) ! 2 =
     \<lparr>em_pos = 2, em_total = 5, em_data = [], em_len = 0\<rparr> \<and>
   snd (encode \<lparr>code_k = 3, code_n = 5,
               enc_matrix = [1, 0, 0, 0, 1, 0, 0, 0, 1, 15, 8, 6, 45, 48, 28]\<rparr> []) =
     Some NullPointer"
proof -
  let ?C = "\<lparr>code_k = 3, code_n = 5,
      enc_matrix = [1, 0, 0, 0, 1, 0, 0, 0, 1, 15, 8, 6, 45, 48, 28]\<rparr>"
  let ?inp = "[0, 1, 2, 3, 4, 5, 6, 7, 8, 9, 10, 11 :: byte]"
  have h: "length ?inp mod 3 = 0" by simp
  have h0: "length ([] :: byte list) mod 3 = 0" by simp
  note S = systematic_property[OF fec_code_new_3_5 h]
  note S0 = systematic_property[OF fec_code_new_3_5 h0]
  from S have top: "\<forall>i<3. \<forall>j<3. enc_matrix ?C ! (i * 3 + j) = (if i = j then 1 else 0)"
    and len: "3 \<le> length (fst (encode ?C ?inp))"
    and sl: "\<forall>i<3. fst (encode ?C ?inp) ! i = \<lparr>em_pos = i, em_total = 5,
               em_data = take (length ?inp div 3) (drop (i * (length ?inp div 3)) ?inp),
               em_len = length ?inp div 3\<rparr>"
    by blast+
  from S0 have sl0: "\<forall>i<3. fst (encode ?C []) ! i = \<lparr>em_pos = i, em_total = 5,
               em_data = take (length ([] :: byte list) div 3)
                           (drop (i * (length ([] :: byte list) div 3)) []),
               em_len = length ([] :: byte list) div 3\<rparr>"
    by blast
  from sl have a: "fst (encode ?C ?inp) ! 2 =
      \<lparr>em_pos = 2, em_total = 5, em_data = [8, 9, 10, 11], em_len = 4\<rparr>"
    by simp
  from sl0 have b: "fst (encode ?C []) ! 2 = \<lparr>em_pos = 2, em_total = 5, em_data = [], em_len = 0\<rparr>"
    by simp
  have c: "snd (encode ?C []) = Some NullPointer" by code_simp
  from top have d: "enc_matrix ?C ! (2 * 3 + 2) = 1" "enc_matrix ?C ! (2 * 3 + 1) = 0"
    by simp_all
  show ?thesis using d len a b c by (intro conjI)
qed

section \<open>Too few shares\<close>

text \<open>
  Claim C8. With fewer than \<open>k\<close> shares, \<open>decode\<close> throws the insufficient-shares
  exception and has not called \<open>output\<close>.
\<close>

theorem insufficient_shares:
  "length shares < code_k cfg \<Longrightarrow> decode cfg shares share_size = ([], Some InsufficientShares)"
  by (simp add: decode_def)

theorem insufficient_shares_witness:
  "decode \<lparr>code_k = 3, code_n = 5,
            enc_matrix = [1, 0, 0, 0, 1, 0, 0, 0, 1, 15, 8, 6, 45, 48, 28]\<rparr>
     [(0, [0, 1, 2, 3]), (4, [32, 33, 34, 35])] 4 = ([], Some InsufficientShares)"
  using insufficient_shares[of "[(0, [0, 1, 2, 3]), (4, [32, 33, 34, 35])]"
      "\<lparr>code_k = 3, code_n = 5,
            enc_matrix = [1, 0, 0, 0, 1, 0, 0, 0, 1, 15, 8, 6, 45, 48, 28]\<rparr>" 4]
  by simp

section \<open>The selection of the shares\<close>

text \<open>
  The selection protocol in the words of the specification: for each position in turn,
  if the smallest remaining supplied index equals the position it is taken, otherwise
  the largest remaining supplied index is taken; the index taken is no longer
  remaining. \<open>spec_select\<close> lists the indices taken, \<open>spec_rest\<close> the indices
  that remain.
\<close>

definition spec_choice :: "nat list \<Rightarrow> nat \<Rightarrow> nat" where
  "spec_choice remaining i =
     (if Min (set remaining) = i then Min (set remaining) else Max (set remaining))"

fun spec_select :: "nat list \<Rightarrow> nat list \<Rightarrow> nat list" where
  "spec_select remaining [] = []"
| "spec_select remaining (i # is) =
     spec_choice remaining i # spec_select (remove1 (spec_choice remaining i) remaining) is"

fun spec_rest :: "nat list \<Rightarrow> nat list \<Rightarrow> nat list" where
  "spec_rest remaining [] = remaining"
| "spec_rest remaining (i # is) = spec_rest (remove1 (spec_choice remaining i) remaining) is"

lemma spec_select_snoc:
  "spec_select R (xs @ [i]) = spec_select R xs @ [spec_choice (spec_rest R xs) i]"
  by (induction xs arbitrary: R) simp_all

lemma spec_rest_snoc:
  "spec_rest R (xs @ [i]) = remove1 (spec_choice (spec_rest R xs) i) (spec_rest R xs)"
  by (induction xs arbitrary: R) simp_all

lemma length_spec_select [simp]: "length (spec_select R xs) = length xs"
  by (induction xs arbitrary: R) simp_all

subsection \<open>Strictly increasing lists\<close>

lemma strict_sorted_nth_mono:
  "sorted_wrt (<) (xs :: nat list) \<Longrightarrow> a < c \<Longrightarrow> c < length xs \<Longrightarrow> xs ! a < xs ! c"
  by (simp add: sorted_wrt_nth_less)

lemma strict_sorted_nth_gap:
  "sorted_wrt (<) (xs :: nat list) \<Longrightarrow> a \<le> c \<Longrightarrow> c < length xs \<Longrightarrow> xs ! a + (c - a) \<le> xs ! c"
proof (induction "c - a" arbitrary: c)
  case 0
  then show ?case by simp
next
  case (Suc d)
  then obtain c' where c': "c = Suc c'" by (cases c) auto
  with Suc have "xs ! a + (c' - a) \<le> xs ! c'" by auto
  moreover have "xs ! c' < xs ! c" using Suc.prems c' by (simp add: sorted_wrt_nth_less)
  ultimately show ?case using Suc.hyps c' by linarith
qed

lemma strict_sorted_Min:
  assumes "sorted_wrt (<) (xs :: nat list)" and "xs \<noteq> []"
  shows "Min (set xs) = hd xs"
proof (cases xs)
  case Nil
  with assms show ?thesis by simp
next
  case (Cons x ys)
  with assms have "\<forall>y \<in> set ys. x < y" by simp
  then have "Min (insert x (set ys)) = x"
    by (intro Min_eqI) (auto intro: order_less_imp_le)
  with Cons show ?thesis by simp
qed

lemma strict_sorted_Max:
  "sorted_wrt (<) (xs :: nat list) \<Longrightarrow> xs \<noteq> [] \<Longrightarrow> Max (set xs) = last xs"
proof (induction xs)
  case Nil
  then show ?case by simp
next
  case (Cons x xs)
  show ?case
  proof (cases "xs = []")
    case True
    then show ?thesis by simp
  next
    case False
    then have "Max (set xs) = last xs" using Cons by simp
    moreover have "x < last xs" using Cons.prems False by simp
    ultimately show ?thesis using False by (simp add: max_def)
  qed
qed

lemma strict_sorted_distinct: "sorted_wrt (<) (xs :: nat list) \<Longrightarrow> distinct xs"
  by (induction xs) auto

lemma remove1_hd: "xs \<noteq> [] \<Longrightarrow> remove1 (hd xs) xs = tl xs"
  by (cases xs) simp_all

lemma remove1_last: "distinct xs \<Longrightarrow> xs \<noteq> [] \<Longrightarrow> remove1 (last xs) xs = butlast xs"
  by (induction xs) (auto simp: remove1_idem)

text \<open>The indices that remain are a segment of the sorted list of supplied indices.\<close>

lemma segment_facts:
  assumes "sorted_wrt (<) (ks :: nat list)" and "b + e < length ks"
  defines "seg \<equiv> drop b (take (length ks - e) ks)"
  shows "seg \<noteq> []" and "Min (set seg) = ks ! b" and "Max (set seg) = ks ! (length ks - 1 - e)"
    and "remove1 (ks ! b) seg = drop (Suc b) (take (length ks - e) ks)"
    and "remove1 (ks ! (length ks - 1 - e)) seg = drop b (take (length ks - Suc e) ks)"
proof -
  have len: "length seg = length ks - e - b" by (simp add: seg_def)
  then show ne: "seg \<noteq> []" using assms(2) by auto
  have srt: "sorted_wrt (<) seg"
    unfolding seg_def using assms(1) by (simp add: sorted_wrt_drop sorted_wrt_take)
  have hd: "hd seg = ks ! b"
    unfolding seg_def using assms(2) by (simp add: hd_drop_conv_nth)
  have last: "last seg = ks ! (length ks - 1 - e)"
  proof -
    have "last seg = seg ! (length seg - 1)" using ne by (simp add: last_conv_nth)
    also have "\<dots> = ks ! (b + (length ks - e - b - 1))"
      unfolding seg_def using assms(2) by simp
    also have "b + (length ks - e - b - 1) = length ks - 1 - e" using assms(2) by simp
    finally show ?thesis .
  qed
  show "Min (set seg) = ks ! b" using strict_sorted_Min[OF srt ne] hd by simp
  show "Max (set seg) = ks ! (length ks - 1 - e)" using strict_sorted_Max[OF srt ne] last by simp
  show "remove1 (ks ! b) seg = drop (Suc b) (take (length ks - e) ks)"
    using remove1_hd[OF ne] hd by (simp add: seg_def tl_drop drop_Suc)
  have "butlast seg = drop b (take (length ks - Suc e) ks)"
    unfolding seg_def by (simp add: butlast_drop butlast_take drop_take)
  then show "remove1 (ks ! (length ks - 1 - e)) seg = drop b (take (length ks - Suc e) ks)"
    using remove1_last[OF strict_sorted_distinct[OF srt] ne] last by simp
qed

subsection \<open>The invariant of the selection loop\<close>

lemma length_memcpy [simp]: "length (memcpy dst doff src soff cnt) = length dst"
  by (simp add: memcpy_def)

lemma memcpy_nth:
  "memcpy dst doff src soff cnt ! x =
     (if doff \<le> x \<and> x < doff + cnt \<and> x < length dst then src ! (soff + (x - doff)) else dst ! x)"
  unfolding memcpy_def
proof (induction cnt)
  case 0
  then show ?case by auto
next
  case (Suc cnt)
  show ?case
  proof (cases "x = doff + cnt")
    case True
    then show ?thesis using Suc by (auto simp: nth_list_update list_update_beyond)
  next
    case False
    then show ?thesis using Suc by (auto simp: nth_list_update)
  qed
qed

text \<open>
  After the positions below \<open>i\<close>: the two iterators have passed \<open>i\<close> entries
  together; the entries before the front iterator have indices below \<open>i\<close> and the
  others have indices from \<open>i\<close> on; the indices recorded are those of the protocol.
  A share taken from the back has an index of at least the number of shares.
\<close>

definition sel_inv :: "fec_code \<Rightarrow> shares \<Rightarrow> nat \<Rightarrow> nat \<Rightarrow> sel_state \<Rightarrow> bool" where
  "sel_inv cfg shares share_size i s \<longleftrightarrow>
     b_iter s + e_iter s = i \<and>
     (\<forall>j < b_iter s. fst (shares ! j) < i) \<and>
     (\<forall>j. b_iter s \<le> j \<and> j < length shares \<longrightarrow> i \<le> fst (shares ! j)) \<and>
     length (indexes s) = code_k cfg \<and> length (sharesv s) = code_k cfg \<and>
     length (m_dec s) = code_k cfg * code_k cfg \<and>
     take i (indexes s) = spec_select (map fst shares) [0..<i] \<and>
     spec_rest (map fst shares) [0..<i] =
       drop (b_iter s) (take (length shares - e_iter s) (map fst shares)) \<and>
     (\<forall>j < i. indexes s ! j < code_n cfg \<and> (indexes s ! j, sharesv s ! j) \<in> set shares \<and>
        (indexes s ! j = j \<or>
         (length shares \<le> indexes s ! j \<and>
          (\<exists>p. length shares - e_iter s \<le> p \<and> p < length shares \<and>
               indexes s ! j = fst (shares ! p))))) \<and>
     (\<forall>j < i. \<forall>col < code_k cfg.
        m_dec s ! (j * code_k cfg + col) =
          (if indexes s ! j < code_k cfg then (if col = j then 1 else 0)
           else enc_matrix cfg ! (indexes s ! j * code_k cfg + col))) \<and>
     (\<forall>x. i * code_k cfg \<le> x \<and> x < code_k cfg * code_k cfg \<longrightarrow> m_dec s ! x = 0) \<and>
     emitted s =
       map (\<lambda>j. \<lparr>em_pos = j, em_total = code_k cfg, em_data = take share_size (sharesv s ! j),
                  em_len = share_size\<rparr>)
         (filter (\<lambda>j. indexes s ! j < code_k cfg) [0..<i]) \<and>
     (\<forall>p. length shares - e_iter s \<le> p \<and> p < length shares \<longrightarrow>
          (\<exists>j < i. indexes s ! j = fst (shares ! p))) \<and>
     (\<forall>j < i. \<forall>j' < i. indexes s ! j = indexes s ! j' \<longrightarrow> j = j')"

lemma sel_inv_init: "sel_inv cfg shares share_size 0 (select_init (code_k cfg))"
  by (simp add: sel_inv_def select_init_def)

lemma row_index_less:
  assumes "i < k" and "col < (k :: nat)"
  shows "i * k + col < k * k"
proof -
  have "i * k + col < i * k + k" using assms(2) by simp
  also have "\<dots> = Suc i * k" by simp
  also have "\<dots> \<le> k * k" using assms(1) by (metis Suc_leI mult_le_mono1)
  finally show ?thesis .
qed

lemma row_index_eq:
  assumes "col < k" and "col' < (k :: nat)"
  shows "i * k + col = j * k + col' \<longleftrightarrow> i = j \<and> col = col'"
proof
  assume eq: "i * k + col = j * k + col'"
  have "(i * k + col) div k = i" "(j * k + col') div k = j" using assms by simp_all
  with eq have "i = j" by simp
  with eq show "i = j \<and> col = col'" by simp
qed simp

lemma row_index_range:
  assumes "col < (k :: nat)"
  shows "j * k + col < i * k \<longleftrightarrow> j < i"
proof
  assume "j * k + col < i * k"
  then have "j * k < i * k" by linarith
  then show "j < i" by simp
next
  assume "j < i"
  then have "Suc j * k \<le> i * k" by (metis Suc_leI mult_le_mono1)
  then show "j * k + col < i * k" using assms by simp
qed

lemma select_step_front:
  assumes inv: "sel_inv cfg shares share_size i s"
    and srt: "sorted_wrt (<) (map fst shares)"
    and km: "code_k cfg \<le> length shares"
    and kn: "code_k cfg \<le> code_n cfg"
    and ik: "i < code_k cfg"
    and hit: "fst (shares ! b_iter s) = i"
  shows "spec_choice (spec_rest (map fst shares) [0..<i]) i = i"
    and "\<exists>s'. select_step cfg shares share_size i s = Inr s' \<and>
              sel_inv cfg shares share_size (Suc i) s'"
proof -
  define k where "k = code_k cfg"
  define b where "b = b_iter s"
  define e where "e = e_iter s"
  define ks where "ks = map fst shares"
  note I = inv[unfolded sel_inv_def, folded k_def b_def e_def ks_def]
  have I7: "\<forall>j < i. indexes s ! j < code_n cfg \<and> (indexes s ! j, sharesv s ! j) \<in> set shares \<and>
        (indexes s ! j = j \<or>
         (length shares \<le> indexes s ! j \<and>
          (\<exists>p. length shares - e \<le> p \<and> p < length shares \<and>
               indexes s ! j = fst (shares ! p))))"
    using I by (elim conjE)
  have I11: "\<forall>p. length shares - e \<le> p \<and> p < length shares \<longrightarrow>
          (\<exists>j < i. indexes s ! j = fst (shares ! p))"
    using I by (elim conjE)
  have I12: "\<forall>j < i. \<forall>j' < i. indexes s ! j = indexes s ! j' \<longrightarrow> j = j'"
    using I by (elim conjE)
  have be: "b + e = i" using I by simp
  have bm: "b + e < length ks" using be ik km by (simp add: ks_def)
  have b_lt: "b < length shares" using bm by (simp add: ks_def)
  have ksb: "ks ! b = i" using hit b_lt by (simp add: ks_def b_def)
  note SF = segment_facts[OF srt[folded ks_def] bm]
  have rest: "spec_rest ks [0..<i] = drop b (take (length ks - e) ks)"
    using I by (simp add: ks_def)
  show choice: "spec_choice (spec_rest (map fst shares) [0..<i]) i = i"
    unfolding ks_def[symmetric] rest spec_choice_def using SF(2) ksb by simp
  define s' where "s' = s\<lparr>b_iter := b + 1, m_dec := (m_dec s)[i * (k + 1) := 1],
      emitted := emitted s @ [\<lparr>em_pos = i, em_total = k,
                  em_data = take share_size (snd (shares ! b)), em_len = share_size\<rparr>],
      sharesv := (sharesv s)[i := snd (shares ! b)], indexes := (indexes s)[i := i]\<rparr>"
  have step: "select_step cfg shares share_size i s = Inr s'"
    using hit b_lt ik kn
    by (simp add: select_step_def select_put_def Let_def s'_def b_def k_def)
  have len: "length (indexes s) = k" "length (sharesv s) = k" "length (m_dec s) = k * k"
    using I by simp_all
  have ik': "i < k" using ik by (simp add: k_def)
  have old_idx: "\<And>j. j < i \<Longrightarrow> indexes s' ! j = indexes s ! j"
    by (simp add: s'_def)
  have old_sv: "\<And>j. j < i \<Longrightarrow> sharesv s' ! j = sharesv s ! j"
    by (simp add: s'_def)
  have new_idx: "indexes s' ! i = i" using len ik' by (simp add: s'_def)
  have new_sv: "sharesv s' ! i = snd (shares ! b)" using len ik' by (simp add: s'_def)
  have md: "m_dec s' = (m_dec s)[i * k + i := 1]" by (simp add: s'_def add.commute)
  have c1: "b_iter s' + e_iter s' = Suc i" using be by (simp add: s'_def e_def)
  have c2: "\<forall>j < b_iter s'. fst (shares ! j) < Suc i"
  proof (intro allI impI)
    fix j assume "j < b_iter s'"
    then have "j < b \<or> j = b" by (auto simp: s'_def)
    then show "fst (shares ! j) < Suc i"
      using I hit by (auto simp: b_def less_Suc_eq)
  qed
  have c3: "\<forall>j. b_iter s' \<le> j \<and> j < length shares \<longrightarrow> Suc i \<le> fst (shares ! j)"
  proof (intro allI impI)
    fix j assume "b_iter s' \<le> j \<and> j < length shares"
    then have j: "b < j" "j < length ks" by (auto simp: s'_def ks_def)
    then have "ks ! b < ks ! j" using sorted_wrt_nth_less[OF srt[folded ks_def], of b j] by simp
    then show "Suc i \<le> fst (shares ! j)" using ksb j by (simp add: ks_def)
  qed
  have c4: "length (indexes s') = k \<and> length (sharesv s') = k \<and> length (m_dec s') = k * k"
    using len by (simp add: s'_def)
  have c5: "take (Suc i) (indexes s') = spec_select ks [0..<Suc i]"
  proof -
    have "take (Suc i) (indexes s') = take i (indexes s') @ [indexes s' ! i]"
      using c4 ik' by (simp add: take_Suc_conv_app_nth)
    also have "take i (indexes s') = take i (indexes s)" by (simp add: s'_def)
    finally show ?thesis using I new_idx choice
      by (simp add: spec_select_snoc ks_def)
  qed
  have c6: "spec_rest ks [0..<Suc i] = drop (b_iter s') (take (length shares - e_iter s') ks)"
    using SF(4) rest choice ksb by (simp add: spec_rest_snoc s'_def ks_def e_def)
  have c7: "\<forall>j < Suc i. indexes s' ! j < code_n cfg \<and> (indexes s' ! j, sharesv s' ! j) \<in> set shares \<and>
        (indexes s' ! j = j \<or>
         (length shares \<le> indexes s' ! j \<and>
          (\<exists>p. length shares - e_iter s' \<le> p \<and> p < length shares \<and>
               indexes s' ! j = fst (shares ! p))))"
  proof (intro allI impI)
    fix j assume "j < Suc i"
    then consider "j < i" | "j = i" by linarith
    then show "indexes s' ! j < code_n cfg \<and> (indexes s' ! j, sharesv s' ! j) \<in> set shares \<and>
        (indexes s' ! j = j \<or>
         (length shares \<le> indexes s' ! j \<and>
          (\<exists>p. length shares - e_iter s' \<le> p \<and> p < length shares \<and>
               indexes s' ! j = fst (shares ! p))))"
    proof cases
      case 1
      have "e_iter s' = e" by (simp add: s'_def e_def)
      then show ?thesis using I 1 old_idx[OF 1] old_sv[OF 1] by (simp add: e_def)
    next
      case 2
      have "(i, snd (shares ! b)) = shares ! b" using hit by (simp add: b_def prod_eq_iff)
      then have "(i, snd (shares ! b)) \<in> set shares" using b_lt by (metis nth_mem)
      then show ?thesis using 2 new_idx new_sv ik kn by simp
    qed
  qed
  have c8: "\<forall>j < Suc i. \<forall>col < k.
        m_dec s' ! (j * k + col) =
          (if indexes s' ! j < k then (if col = j then 1 else 0)
           else enc_matrix cfg ! (indexes s' ! j * k + col))"
  proof (intro allI impI)
    fix j col assume j: "j < Suc i" and col: "col < k"
    from j consider "j < i" | "j = i" by linarith
    then show "m_dec s' ! (j * k + col) =
          (if indexes s' ! j < k then (if col = j then 1 else 0)
           else enc_matrix cfg ! (indexes s' ! j * k + col))"
    proof cases
      case 1
      have "i * k + i \<noteq> j * k + col" using row_index_eq[OF ik' col, of i j] 1 by simp
      then have "m_dec s' ! (j * k + col) = m_dec s ! (j * k + col)"
        by (simp add: md)
      then show ?thesis using I 1 col old_idx[OF 1] by simp
    next
      case 2
      have lt: "i * k + col < k * k" using row_index_less[OF ik' col] .
      have z: "m_dec s ! (i * k + col) = 0" using I lt by simp
      have "m_dec s' ! (i * k + col) = (if col = i then 1 else 0)"
      proof (cases "col = i")
        case True
        then show ?thesis using len lt by (simp add: md)
      next
        case False
        then have "i * k + i \<noteq> i * k + col" by simp
        then show ?thesis using z False by (simp add: md)
      qed
      then show ?thesis using 2 new_idx ik' by simp
    qed
  qed
  have c9: "\<forall>x. Suc i * k \<le> x \<and> x < k * k \<longrightarrow> m_dec s' ! x = 0"
  proof (intro allI impI)
    fix x assume x: "Suc i * k \<le> x \<and> x < k * k"
    then have "i * k + i \<noteq> x" using ik' by simp
    then have "m_dec s' ! x = m_dec s ! x" by (simp add: md)
    then show "m_dec s' ! x = 0" using I x by simp
  qed
  have c10: "emitted s' =
       map (\<lambda>j. \<lparr>em_pos = j, em_total = k, em_data = take share_size (sharesv s' ! j),
                  em_len = share_size\<rparr>)
         (filter (\<lambda>j. indexes s' ! j < k) [0..<Suc i])"
  proof -
    have f: "filter (\<lambda>j. indexes s' ! j < k) [0..<i] = filter (\<lambda>j. indexes s ! j < k) [0..<i]"
      by (rule filter_cong) (simp_all add: old_idx)
    have m: "map (\<lambda>j. \<lparr>em_pos = j, em_total = k, em_data = take share_size (sharesv s' ! j),
                  em_len = share_size\<rparr>) (filter (\<lambda>j. indexes s ! j < k) [0..<i]) =
             map (\<lambda>j. \<lparr>em_pos = j, em_total = k, em_data = take share_size (sharesv s ! j),
                  em_len = share_size\<rparr>) (filter (\<lambda>j. indexes s ! j < k) [0..<i])"
      by (rule map_cong) (simp_all add: old_sv)
    have "emitted s' = emitted s @ [\<lparr>em_pos = i, em_total = k,
                  em_data = take share_size (snd (shares ! b)), em_len = share_size\<rparr>]"
      by (simp add: s'_def)
    then show ?thesis using I f m new_idx new_sv ik' by simp
  qed
  have c11: "\<forall>p. length shares - e_iter s' \<le> p \<and> p < length shares \<longrightarrow>
          (\<exists>j < Suc i. indexes s' ! j = fst (shares ! p))"
  proof (intro allI impI)
    fix p assume "length shares - e_iter s' \<le> p \<and> p < length shares"
    then have "length shares - e \<le> p \<and> p < length shares" by (simp add: s'_def e_def)
    with I11 obtain j where "j < i" "indexes s ! j = fst (shares ! p)" by blast
    then show "\<exists>j < Suc i. indexes s' ! j = fst (shares ! p)"
      using old_idx[of j] by (intro exI[of _ j]) simp
  qed
  have old_ne: "indexes s ! j \<noteq> i" if "j < i" for j
  proof -
    from I7 that have "indexes s ! j = j \<or> length shares \<le> indexes s ! j" by blast
    then show ?thesis using that ik km by auto
  qed
  have c12: "\<forall>j < Suc i. \<forall>j' < Suc i. indexes s' ! j = indexes s' ! j' \<longrightarrow> j = j'"
  proof (intro allI impI)
    fix j j' assume j: "j < Suc i" "j' < Suc i" and eq: "indexes s' ! j = indexes s' ! j'"
    from I12 have inj: "\<And>a a'. a < i \<Longrightarrow> a' < i \<Longrightarrow> indexes s ! a = indexes s ! a' \<Longrightarrow> a = a'"
      by blast
    show "j = j'"
    proof (cases "j < i")
      case jl: True
      show ?thesis
      proof (cases "j' < i")
        case True
        then show ?thesis using inj[OF jl True] eq old_idx[OF jl] old_idx[OF True] by simp
      next
        case False
        then have "j' = i" using j by simp
        then show ?thesis using eq old_idx[OF jl] new_idx old_ne[OF jl] by simp
      qed
    next
      case False
      then have ji: "j = i" using j by simp
      show ?thesis
      proof (cases "j' < i")
        case True
        then show ?thesis using eq ji old_idx[OF True] new_idx old_ne[OF True] by simp
      next
        case False
        then show ?thesis using ji j by simp
      qed
    qed
  qed
  have "sel_inv cfg shares share_size (Suc i) s'"
    unfolding sel_inv_def k_def[symmetric] ks_def[symmetric]
    by (intro conjI c1 c2 c3 c4[THEN conjunct1] c4[THEN conjunct2, THEN conjunct1]
          c4[THEN conjunct2, THEN conjunct2] c5 c6 c7 c8 c9 c10 c11 c12)
  with step show "\<exists>s'. select_step cfg shares share_size i s = Inr s' \<and>
              sel_inv cfg shares share_size (Suc i) s'" by blast
qed

lemma select_step_back:
  assumes inv: "sel_inv cfg shares share_size i s"
    and srt: "sorted_wrt (<) (map fst shares)"
    and km: "code_k cfg \<le> length shares"
    and ik: "i < code_k cfg"
    and miss: "fst (shares ! b_iter s) \<noteq> i"
  shows "spec_choice (spec_rest (map fst shares) [0..<i]) i =
           fst (shares ! (length shares - 1 - e_iter s))"
    and "length shares \<le> fst (shares ! (length shares - 1 - e_iter s))"
    and "fst (shares ! (length shares - 1 - e_iter s)) < code_n cfg \<Longrightarrow>
           \<exists>s'. select_step cfg shares share_size i s = Inr s' \<and>
                sel_inv cfg shares share_size (Suc i) s'"
    and "code_n cfg \<le> fst (shares ! (length shares - 1 - e_iter s)) \<Longrightarrow>
           select_step cfg shares share_size i s = Inl InvalidIndex"
proof -
  define k where "k = code_k cfg"
  define b where "b = b_iter s"
  define e where "e = e_iter s"
  define ks where "ks = map fst shares"
  define q where "q = length shares - 1 - e"
  define c where "c = fst (shares ! q)"
  note I = inv[unfolded sel_inv_def, folded k_def b_def e_def ks_def]
  have I7: "\<forall>j < i. indexes s ! j < code_n cfg \<and> (indexes s ! j, sharesv s ! j) \<in> set shares \<and>
        (indexes s ! j = j \<or>
         (length shares \<le> indexes s ! j \<and>
          (\<exists>p. length shares - e \<le> p \<and> p < length shares \<and>
               indexes s ! j = fst (shares ! p))))"
    using I by (elim conjE)
  have I11: "\<forall>p. length shares - e \<le> p \<and> p < length shares \<longrightarrow>
          (\<exists>j < i. indexes s ! j = fst (shares ! p))"
    using I by (elim conjE)
  have I12: "\<forall>j < i. \<forall>j' < i. indexes s ! j = indexes s ! j' \<longrightarrow> j = j'"
    using I by (elim conjE)
  have be: "b + e = i" using I by simp
  have bm: "b + e < length ks" using be ik km by (simp add: ks_def)
  have b_lt: "b < length shares" and e_lt: "e < length shares" using bm by (simp_all add: ks_def)
  have q_lt: "q < length shares" and bq: "b \<le> q" using bm by (simp_all add: q_def ks_def)
  have ksq: "ks ! q = c" using q_lt by (simp add: ks_def c_def)
  have ksb: "i < ks ! b"
  proof -
    have "i \<le> fst (shares ! b)" using I b_lt by simp
    then show ?thesis using miss b_lt by (simp add: ks_def b_def)
  qed
  note SF = segment_facts[OF srt[folded ks_def] bm]
  have rest: "spec_rest ks [0..<i] = drop b (take (length ks - e) ks)"
    using I by (simp add: ks_def)
  have qq: "length ks - 1 - e = q" by (simp add: q_def ks_def)
  have choice: "spec_choice (spec_rest ks [0..<i]) i = c"
    unfolding rest spec_choice_def using SF(2,3) ksb ksq qq by simp
  then show "spec_choice (spec_rest (map fst shares) [0..<i]) i =
           fst (shares ! (length shares - 1 - e_iter s))"
    by (simp add: ks_def c_def q_def e_def)
  have big: "length shares \<le> c"
  proof -
    have "ks ! b + (q - b) \<le> ks ! q"
      using strict_sorted_nth_gap[OF srt[folded ks_def] bq] q_lt by (simp add: ks_def)
    moreover have "q - b = length shares - 1 - i" using be bm by (simp add: q_def ks_def)
    ultimately show ?thesis using ksb ksq bm be by (simp add: ks_def)
  qed
  then show "length shares \<le> fst (shares ! (length shares - 1 - e_iter s))"
    by (simp add: c_def q_def e_def)
  have kc: "k \<le> c" using big km by (simp add: k_def)
  have entry: "rev shares ! e = shares ! q" using e_lt by (simp add: rev_nth q_def)
  show "select_step cfg shares share_size i s = Inl InvalidIndex"
    if "code_n cfg \<le> fst (shares ! (length shares - 1 - e_iter s))"
    using that miss b_lt e_lt entry
    by (simp add: select_step_def select_put_def Let_def b_def e_def q_def)
  show "\<exists>s'. select_step cfg shares share_size i s = Inr s' \<and>
                sel_inv cfg shares share_size (Suc i) s'"
    if "fst (shares ! (length shares - 1 - e_iter s)) < code_n cfg"
  proof -
    have cn: "c < code_n cfg" using that by (simp add: c_def q_def e_def)
    define s' where "s' = s\<lparr>e_iter := e + 1,
        m_dec := memcpy (m_dec s) (i * k) (enc_matrix cfg) (c * k) k,
        sharesv := (sharesv s)[i := snd (shares ! q)], indexes := (indexes s)[i := c]\<rparr>"
    have step: "select_step cfg shares share_size i s = Inr s'"
      using miss b_lt e_lt entry cn kc
      by (simp add: select_step_def select_put_def Let_def s'_def b_def e_def k_def c_def)
    have len: "length (indexes s) = k" "length (sharesv s) = k" "length (m_dec s) = k * k"
      using I by simp_all
    have ik': "i < k" using ik by (simp add: k_def)
    have old_idx: "\<And>j. j < i \<Longrightarrow> indexes s' ! j = indexes s ! j"
      by (simp add: s'_def)
    have old_sv: "\<And>j. j < i \<Longrightarrow> sharesv s' ! j = sharesv s ! j"
      by (simp add: s'_def)
    have new_idx: "indexes s' ! i = c" using len ik' by (simp add: s'_def)
    have new_sv: "sharesv s' ! i = snd (shares ! q)" using len ik' by (simp add: s'_def)
    have md: "m_dec s' = memcpy (m_dec s) (i * k) (enc_matrix cfg) (c * k) k"
      by (simp add: s'_def)
    have e': "e_iter s' = Suc e" and b': "b_iter s' = b" by (simp_all add: s'_def b_def)
    have c1: "b_iter s' + e_iter s' = Suc i" using be by (simp add: e' b')
    have c2: "\<forall>j < b_iter s'. fst (shares ! j) < Suc i"
      using I by (auto simp: b' less_Suc_eq)
    have c3: "\<forall>j. b_iter s' \<le> j \<and> j < length shares \<longrightarrow> Suc i \<le> fst (shares ! j)"
    proof (intro allI impI)
      fix j assume "b_iter s' \<le> j \<and> j < length shares"
      then have j: "b \<le> j" "j < length ks" by (auto simp: b' ks_def)
      have "ks ! b + (j - b) \<le> ks ! j"
        using strict_sorted_nth_gap[OF srt[folded ks_def] j] .
      then show "Suc i \<le> fst (shares ! j)" using ksb j by (simp add: ks_def)
    qed
    have c4: "length (indexes s') = k \<and> length (sharesv s') = k \<and> length (m_dec s') = k * k"
      using len by (simp add: s'_def)
    have c5: "take (Suc i) (indexes s') = spec_select ks [0..<Suc i]"
    proof -
      have "take (Suc i) (indexes s') = take i (indexes s') @ [indexes s' ! i]"
        using c4 ik' by (simp add: take_Suc_conv_app_nth)
      also have "take i (indexes s') = take i (indexes s)" by (simp add: s'_def)
      finally show ?thesis using I new_idx choice
        by (simp add: spec_select_snoc ks_def)
    qed
    have c6: "spec_rest ks [0..<Suc i] = drop (b_iter s') (take (length shares - e_iter s') ks)"
      using SF(5) rest choice ksq qq by (simp add: spec_rest_snoc e' b' ks_def)
    have c7: "\<forall>j < Suc i. indexes s' ! j < code_n cfg \<and> (indexes s' ! j, sharesv s' ! j) \<in> set shares \<and>
          (indexes s' ! j = j \<or>
           (length shares \<le> indexes s' ! j \<and>
            (\<exists>p. length shares - e_iter s' \<le> p \<and> p < length shares \<and>
                 indexes s' ! j = fst (shares ! p))))"
    proof (intro allI impI)
      fix j assume "j < Suc i"
      then consider "j < i" | "j = i" by linarith
      then show "indexes s' ! j < code_n cfg \<and> (indexes s' ! j, sharesv s' ! j) \<in> set shares \<and>
          (indexes s' ! j = j \<or>
           (length shares \<le> indexes s' ! j \<and>
            (\<exists>p. length shares - e_iter s' \<le> p \<and> p < length shares \<and>
                 indexes s' ! j = fst (shares ! p))))"
      proof cases
        case 1
        from I 1 have old: "indexes s ! j < code_n cfg \<and> (indexes s ! j, sharesv s ! j) \<in> set shares \<and>
          (indexes s ! j = j \<or>
           (length shares \<le> indexes s ! j \<and>
            (\<exists>p. length shares - e \<le> p \<and> p < length shares \<and>
                 indexes s ! j = fst (shares ! p))))" by simp
        have "\<And>p. length shares - e \<le> p \<Longrightarrow> length shares - Suc e \<le> p" by simp
        with old show ?thesis unfolding old_idx[OF 1] old_sv[OF 1] e' by blast
      next
        case 2
        have "(c, snd (shares ! q)) = shares ! q" by (simp add: c_def)
        then have mem: "(c, snd (shares ! q)) \<in> set shares" using q_lt by (metis nth_mem)
        have "length shares - Suc e \<le> q \<and> q < length shares \<and> c = fst (shares ! q)"
          using q_lt by (simp add: q_def c_def)
        then show ?thesis unfolding 2 new_idx new_sv e' using cn mem big by blast
      qed
    qed
    have c8: "\<forall>j < Suc i. \<forall>col < k.
          m_dec s' ! (j * k + col) =
            (if indexes s' ! j < k then (if col = j then 1 else 0)
             else enc_matrix cfg ! (indexes s' ! j * k + col))"
    proof (intro allI impI)
      fix j col assume j: "j < Suc i" and col: "col < k"
      from j consider "j < i" | "j = i" by linarith
      then show "m_dec s' ! (j * k + col) =
            (if indexes s' ! j < k then (if col = j then 1 else 0)
             else enc_matrix cfg ! (indexes s' ! j * k + col))"
      proof cases
        case 1
        have "j * k + col < i * k" using row_index_range[OF col] 1 by simp
        then have "m_dec s' ! (j * k + col) = m_dec s ! (j * k + col)"
          by (simp add: md memcpy_nth)
        then show ?thesis using I 1 col old_idx[OF 1] by simp
      next
        case 2
        have lt: "i * k + col < k * k" using row_index_less[OF ik' col] .
        have "m_dec s' ! (i * k + col) = enc_matrix cfg ! (c * k + col)"
          using lt len col by (simp add: md memcpy_nth)
        then show ?thesis using 2 new_idx kc by simp
      qed
    qed
    have c9: "\<forall>x. Suc i * k \<le> x \<and> x < k * k \<longrightarrow> m_dec s' ! x = 0"
    proof (intro allI impI)
      fix x assume x: "Suc i * k \<le> x \<and> x < k * k"
      then have "\<not> x < i * k + k" by simp
      then have "m_dec s' ! x = m_dec s ! x" by (simp add: md memcpy_nth)
      then show "m_dec s' ! x = 0" using I x by simp
    qed
    have c10: "emitted s' =
         map (\<lambda>j. \<lparr>em_pos = j, em_total = k, em_data = take share_size (sharesv s' ! j),
                    em_len = share_size\<rparr>)
           (filter (\<lambda>j. indexes s' ! j < k) [0..<Suc i])"
    proof -
      have f: "filter (\<lambda>j. indexes s' ! j < k) [0..<i] = filter (\<lambda>j. indexes s ! j < k) [0..<i]"
        by (rule filter_cong) (simp_all add: old_idx)
      have m: "map (\<lambda>j. \<lparr>em_pos = j, em_total = k, em_data = take share_size (sharesv s' ! j),
                    em_len = share_size\<rparr>) (filter (\<lambda>j. indexes s ! j < k) [0..<i]) =
               map (\<lambda>j. \<lparr>em_pos = j, em_total = k, em_data = take share_size (sharesv s ! j),
                    em_len = share_size\<rparr>) (filter (\<lambda>j. indexes s ! j < k) [0..<i])"
        by (rule map_cong) (simp_all add: old_sv)
      have "emitted s' = emitted s" by (simp add: s'_def)
      then show ?thesis using I f m new_idx kc by simp
    qed
    have c11: "\<forall>p. length shares - e_iter s' \<le> p \<and> p < length shares \<longrightarrow>
            (\<exists>j < Suc i. indexes s' ! j = fst (shares ! p))"
    proof (intro allI impI)
      fix p assume p: "length shares - e_iter s' \<le> p \<and> p < length shares"
      show "\<exists>j < Suc i. indexes s' ! j = fst (shares ! p)"
      proof (cases "p = q")
        case True
        then show ?thesis using new_idx by (intro exI[of _ i]) (simp add: c_def)
      next
        case False
        then have "length shares - e \<le> p \<and> p < length shares"
          using p by (auto simp: e' q_def)
        with I11 obtain j where "j < i" "indexes s ! j = fst (shares ! p)" by blast
        then show ?thesis using old_idx[of j] by (intro exI[of _ j]) simp
      qed
    qed
    have old_ne: "indexes s ! j \<noteq> c" if "j < i" for j
    proof -
      from I7 that have "indexes s ! j = j \<or>
           (\<exists>p. length shares - e \<le> p \<and> p < length shares \<and>
                 indexes s ! j = fst (shares ! p))" by blast
      then show ?thesis
      proof
        assume "indexes s ! j = j"
        then show ?thesis using that ik big km by simp
      next
        assume "\<exists>p. length shares - e \<le> p \<and> p < length shares \<and>
                 indexes s ! j = fst (shares ! p)"
        then obtain p where p: "length shares - e \<le> p" "p < length shares"
          "indexes s ! j = fst (shares ! p)" by blast
        then have "q < p" using e_lt by (simp add: q_def)
        then have "ks ! q < ks ! p"
          using sorted_wrt_nth_less[OF srt[folded ks_def], of q p] p by (simp add: ks_def)
        then show ?thesis using p ksq by (simp add: ks_def)
      qed
    qed
    have c12: "\<forall>j < Suc i. \<forall>j' < Suc i. indexes s' ! j = indexes s' ! j' \<longrightarrow> j = j'"
    proof (intro allI impI)
      fix j j' assume j: "j < Suc i" "j' < Suc i" and eq: "indexes s' ! j = indexes s' ! j'"
      from I12 have inj: "\<And>a a'. a < i \<Longrightarrow> a' < i \<Longrightarrow> indexes s ! a = indexes s ! a' \<Longrightarrow> a = a'"
        by blast
      show "j = j'"
      proof (cases "j < i")
        case jl: True
        show ?thesis
        proof (cases "j' < i")
          case True
          then show ?thesis using inj[OF jl True] eq old_idx[OF jl] old_idx[OF True] by simp
        next
          case False
          then have "j' = i" using j by simp
          then show ?thesis using eq old_idx[OF jl] new_idx old_ne[OF jl] by simp
        qed
      next
        case False
        then have ji: "j = i" using j by simp
        show ?thesis
        proof (cases "j' < i")
          case True
          then show ?thesis using eq ji old_idx[OF True] new_idx old_ne[OF True] by simp
        next
          case False
          then show ?thesis using ji j by simp
        qed
      qed
    qed
    have "sel_inv cfg shares share_size (Suc i) s'"
      unfolding sel_inv_def k_def[symmetric] ks_def[symmetric]
      by (intro conjI c1 c2 c3 c4[THEN conjunct1] c4[THEN conjunct2, THEN conjunct1]
            c4[THEN conjunct2, THEN conjunct2] c5 c6 c7 c8 c9 c10 c11 c12)
    with step show ?thesis by blast
  qed
qed

lemma select_loop_append:
  "select_loop cfg shares share_size (xs @ ys) s =
     (case select_loop cfg shares share_size xs s of
        (None, s') \<Rightarrow> select_loop cfg shares share_size ys s'
      | (Some e, s') \<Rightarrow> (Some e, s'))"
  by (induction xs arbitrary: s) (simp_all split: sum.splits)

text \<open>
  The loop over the positions below \<open>i\<close>: it records the shares of the protocol, or
  it stops with the invalid-index exception at the first position where the protocol
  takes, from the back, a share whose index is not below \<open>n\<close>.
\<close>

lemma select_loop_prefix:
  assumes srt: "sorted_wrt (<) (map fst shares)"
    and km: "code_k cfg \<le> length shares"
    and kn: "code_k cfg \<le> code_n cfg"
    and ik: "i \<le> code_k cfg"
  shows "\<exists>r s. select_loop cfg shares share_size [0..<i] (select_init (code_k cfg)) = (r, s) \<and>
     (if \<forall>c \<in> set (spec_select (map fst shares) [0..<i]). c < code_n cfg
      then r = None \<and> sel_inv cfg shares share_size i s
      else r = Some InvalidIndex \<and>
           (\<exists>j < i. sel_inv cfg shares share_size j s \<and> fst (shares ! b_iter s) \<noteq> j \<and>
              code_n cfg \<le> fst (shares ! (length shares - 1 - e_iter s)) \<and>
              take j (indexes s) = take j (spec_select (map fst shares) [0..<i])))"
  using ik
proof (induction i)
  case 0
  then show ?case by (simp add: sel_inv_init)
next
  case (Suc i)
  let ?ks = "map fst shares"
  let ?init = "select_init (code_k cfg)"
  from Suc have ik: "i < code_k cfg" by simp
  from Suc obtain r s where run: "select_loop cfg shares share_size [0..<i] ?init = (r, s)"
    and IH: "if \<forall>c \<in> set (spec_select ?ks [0..<i]). c < code_n cfg
      then r = None \<and> sel_inv cfg shares share_size i s
      else r = Some InvalidIndex \<and>
           (\<exists>j < i. sel_inv cfg shares share_size j s \<and> fst (shares ! b_iter s) \<noteq> j \<and>
              code_n cfg \<le> fst (shares ! (length shares - 1 - e_iter s)) \<and>
              take j (indexes s) = take j (spec_select ?ks [0..<i]))"
    by auto
  have sel: "spec_select ?ks [0..<Suc i] =
      spec_select ?ks [0..<i] @ [spec_choice (spec_rest ?ks [0..<i]) i]"
    by (simp add: spec_select_snoc)
  show ?case
  proof (cases "\<forall>c \<in> set (spec_select ?ks [0..<i]). c < code_n cfg")
    case False
    with IH obtain j where r: "r = Some InvalidIndex" and j: "j < i"
      "sel_inv cfg shares share_size j s" "fst (shares ! b_iter s) \<noteq> j"
      "code_n cfg \<le> fst (shares ! (length shares - 1 - e_iter s))"
      "take j (indexes s) = take j (spec_select ?ks [0..<i])" by auto
    have "select_loop cfg shares share_size [0..<Suc i] ?init = (Some InvalidIndex, s)"
      using run r by (simp add: select_loop_append)
    moreover have "\<not> (\<forall>c \<in> set (spec_select ?ks [0..<Suc i]). c < code_n cfg)"
      using False sel by auto
    moreover have "take j (indexes s) = take j (spec_select ?ks [0..<Suc i])"
      unfolding sel using j by simp
    ultimately show ?thesis using j by (auto intro!: exI[of _ j])
  next
    case True
    with IH have r: "r = None" and inv: "sel_inv cfg shares share_size i s" by auto
    have run': "select_loop cfg shares share_size [0..<Suc i] ?init =
        (case select_step cfg shares share_size i s of
           Inl e \<Rightarrow> (Some e, s) | Inr s' \<Rightarrow> (None, s'))"
      using run r by (simp add: select_loop_append split: sum.splits)
    show ?thesis
    proof (cases "fst (shares ! b_iter s) = i")
      case hit: True
      note F = select_step_front[OF inv srt km kn ik hit]
      from F(2) obtain s' where s': "select_step cfg shares share_size i s = Inr s'"
        "sel_inv cfg shares share_size (Suc i) s'" by blast
      have "\<forall>c \<in> set (spec_select ?ks [0..<Suc i]). c < code_n cfg"
        using True sel F(1) ik kn by auto
      then show ?thesis using run' s' by simp
    next
      case miss: False
      note B = select_step_back[OF inv srt km ik miss]
      show ?thesis
      proof (cases "fst (shares ! (length shares - 1 - e_iter s)) < code_n cfg")
        case ok: True
        from B(3)[OF ok] obtain s' where s': "select_step cfg shares share_size i s = Inr s'"
          "sel_inv cfg shares share_size (Suc i) s'" by blast
        have "\<forall>c \<in> set (spec_select ?ks [0..<Suc i]). c < code_n cfg"
          using True sel B(1) ok by auto
        then show ?thesis using run' s' by simp
      next
        case bad: False
        then have ge: "code_n cfg \<le> fst (shares ! (length shares - 1 - e_iter s))" by simp
        have "\<not> (\<forall>c \<in> set (spec_select ?ks [0..<Suc i]). c < code_n cfg)"
          using sel B(1) ge by auto
        moreover have "select_loop cfg shares share_size [0..<Suc i] ?init = (Some InvalidIndex, s)"
          using run' B(4)[OF ge] by simp
        moreover have "take i (indexes s) = take i (spec_select ?ks [0..<Suc i])"
          unfolding sel using inv by (simp add: sel_inv_def)
        ultimately show ?thesis using inv miss ge by (auto intro!: exI[of _ i])
      qed
    qed
  qed
qed

lemma spec_select_append:
  "spec_select R (xs @ ys) = spec_select R xs @ spec_select (spec_rest R xs) ys"
  by (induction xs arbitrary: R) simp_all

lemma spec_select_nth:
  assumes "j < k"
  shows "spec_select R [0..<k] ! j = spec_choice (spec_rest R [0..<j]) j"
proof -
  have "[0..<k] = [0..<j] @ j # [Suc j..<k]"
    using assms by (metis le_add1 less_imp_add_positive upt_add_eq_append upt_conv_Cons zero_le plus_nat.add_0 less_or_eq_imp_le)
  then have "spec_select R [0..<k] =
      spec_select R [0..<j] @ spec_choice (spec_rest R [0..<j]) j #
        spec_select (remove1 (spec_choice (spec_rest R [0..<j]) j) (spec_rest R [0..<j])) [Suc j..<k]"
    by (simp add: spec_select_append)
  then show ?thesis by (simp add: nth_append)
qed

lemma sel_inv_indexes:
  assumes "sel_inv cfg shares share_size (code_k cfg) s"
  shows "indexes s = spec_select (map fst shares) [0..<code_k cfg]"
    and "length (indexes s) = code_k cfg"
    and "\<forall>i < code_k cfg. indexes s ! i < code_n cfg \<and> (indexes s ! i, sharesv s ! i) \<in> set shares \<and>
          (indexes s ! i = i \<or> length shares \<le> indexes s ! i)"
    and "distinct (indexes s)"
proof -
  note I = assms[unfolded sel_inv_def]
  show len: "length (indexes s) = code_k cfg" using I by (elim conjE)
  have "take (code_k cfg) (indexes s) = spec_select (map fst shares) [0..<code_k cfg]"
    using I by (elim conjE)
  then show "indexes s = spec_select (map fst shares) [0..<code_k cfg]" using len by simp
  have I7: "\<forall>j < code_k cfg. indexes s ! j < code_n cfg \<and> (indexes s ! j, sharesv s ! j) \<in> set shares \<and>
        (indexes s ! j = j \<or>
         (length shares \<le> indexes s ! j \<and>
          (\<exists>p. length shares - e_iter s \<le> p \<and> p < length shares \<and>
               indexes s ! j = fst (shares ! p))))"
    using I by (elim conjE)
  then show "\<forall>i < code_k cfg. indexes s ! i < code_n cfg \<and> (indexes s ! i, sharesv s ! i) \<in> set shares \<and>
          (indexes s ! i = i \<or> length shares \<le> indexes s ! i)" by blast
  have "\<forall>j < code_k cfg. \<forall>j' < code_k cfg. indexes s ! j = indexes s ! j' \<longrightarrow> j = j'"
    using I by (elim conjE)
  then show "distinct (indexes s)" using len by (simp add: distinct_conv_nth) blast
qed

lemma sel_inv_front_iff:
  assumes inv: "sel_inv cfg shares share_size j s"
    and srt: "sorted_wrt (<) (map fst shares)"
    and b: "b_iter s < length shares"
  shows "fst (shares ! b_iter s) = j \<longleftrightarrow> j \<in> set (map fst shares)"
proof
  assume "fst (shares ! b_iter s) = j"
  then show "j \<in> set (map fst shares)" using b by (metis nth_map nth_mem length_map)
next
  assume "j \<in> set (map fst shares)"
  then obtain a where a: "a < length shares" "map fst shares ! a = j"
    by (metis in_set_conv_nth length_map)
  note I = inv[unfolded sel_inv_def]
  have lo: "\<forall>x < b_iter s. fst (shares ! x) < j" using I by (elim conjE)
  have hi: "\<forall>x. b_iter s \<le> x \<and> x < length shares \<longrightarrow> j \<le> fst (shares ! x)"
    using I by (elim conjE)
  have "\<not> a < b_iter s" using lo a by auto
  moreover have "\<not> b_iter s < a"
  proof
    assume "b_iter s < a"
    then have "map fst shares ! b_iter s < map fst shares ! a"
      using sorted_wrt_nth_less[OF srt, of "b_iter s" a] a by simp
    then show False using hi[rule_format, of "b_iter s"] b a by simp
  qed
  ultimately have "a = b_iter s" by simp
  then show "fst (shares ! b_iter s) = j" using a by simp
qed

lemma invert_cols_error:
  "invert_cols k cols s = Inl e \<Longrightarrow> e = PivotNotFound \<or> e = SingularMatrix"
proof (induction cols arbitrary: s)
  case Nil
  then show ?case by simp
next
  case (Cons col cols)
  show ?case
  proof (cases "invert_step k col s")
    case (Inl e')
    then have "e' = e" using Cons.prems by simp
    then show ?thesis using Inl
      by (auto simp: invert_step_def pivot_search_def Let_def
          split: sum.splits prod.splits if_splits option.splits)
  next
    case (Inr s')
    then show ?thesis using Cons by simp
  qed
qed

lemma invert_matrix_error:
  "invert_matrix src k = Inl e \<Longrightarrow> e = PivotNotFound \<or> e = SingularMatrix"
  by (auto simp: invert_matrix_def split: sum.splits dest: invert_cols_error)

text \<open>The selection loop of a call with at least \<open>k\<close> shares, in full.\<close>

lemma select_loop_full:
  assumes cfg: "fec_code_new avail k n = Inr cfg"
    and srt: "sorted_wrt (<) (map fst shares)"
    and km: "k \<le> length shares"
  shows "\<exists>r s. select_loop cfg shares share_size [0..<k] (select_init k) = (r, s) \<and>
     (if \<forall>c \<in> set (spec_select (map fst shares) [0..<k]). c < n
      then r = None \<and> sel_inv cfg shares share_size k s
      else r = Some InvalidIndex \<and>
           (\<exists>j < k. sel_inv cfg shares share_size j s \<and> fst (shares ! b_iter s) \<noteq> j \<and>
              n \<le> fst (shares ! (length shares - 1 - e_iter s)) \<and>
              take j (indexes s) = take j (spec_select (map fst shares) [0..<k])))"
proof -
  note F = fec_code_new_fields[OF cfg]
  have km': "code_k cfg \<le> length shares" and kn: "code_k cfg \<le> code_n cfg"
    using F km by simp_all
  have eq: "k = code_k cfg" "n = code_n cfg" using F by simp_all
  show ?thesis
    unfolding eq by (rule select_loop_prefix[OF srt km' kn order_refl])
qed




text \<open>
  Claim C3, as the code has it. The index check is made on the share that has just been
  selected, so a supplied index that is not below \<open>n\<close> makes \<open>decode\<close> fail only if
  the selection reaches it: the call fails with the invalid-index exception exactly
  when some supplied index is not below \<open>n\<close> and some position \<open>i < k\<close> has no
  share of index \<open>i\<close>.
\<close>

theorem invalid_index_selected:
  assumes "fec_code_new avail k n = Inr cfg"
    and "sorted_wrt (<) (map fst shares)"
    and "k \<le> length shares"
  shows "(\<exists>tr. decode cfg shares share_size = (tr, Some InvalidIndex)) \<longleftrightarrow>
         (\<exists>idx \<in> set (map fst shares). n \<le> idx) \<and> (\<exists>i < k. i \<notin> set (map fst shares))"
proof -
  note F = fec_code_new_fields[OF assms(1)]
  let ?ks = "map fst shares"
  let ?m = "length shares"
  from select_loop_full[OF assms, of share_size] obtain r s
    where run: "select_loop cfg shares share_size [0..<k] (select_init k) = (r, s)"
      and res: "if \<forall>c \<in> set (spec_select ?ks [0..<k]). c < n
      then r = None \<and> sel_inv cfg shares share_size k s
      else r = Some InvalidIndex \<and>
           (\<exists>j < k. sel_inv cfg shares share_size j s \<and> fst (shares ! b_iter s) \<noteq> j \<and>
              n \<le> fst (shares ! (?m - 1 - e_iter s)) \<and>
              take j (indexes s) = take j (spec_select ?ks [0..<k]))"
    by blast
  have m0: "0 < ?m" using F(3) assms(3) by (rule less_le_trans)
  show ?thesis
  proof (cases "\<forall>c \<in> set (spec_select ?ks [0..<k]). c < n")
    case True
    with res have r: "r = None" and inv: "sel_inv cfg shares share_size k s" by simp_all
    have no_fail: "\<not> (\<exists>tr. decode cfg shares share_size = (tr, Some InvalidIndex))"
      using run r F assms(3) invert_matrix_error[of "m_dec s" k]
      by (auto simp: decode_def split: sum.splits prod.splits dest: recover_error)
    have "\<not> ((\<exists>idx \<in> set ?ks. n \<le> idx) \<and> (\<exists>i < k. i \<notin> set ?ks))"
    proof
      assume "(\<exists>idx \<in> set ?ks. n \<le> idx) \<and> (\<exists>i < k. i \<notin> set ?ks)"
      then obtain idx i0 where idx: "idx \<in> set ?ks" "n \<le> idx" and i0: "i0 < k" "i0 \<notin> set ?ks"
        by blast
      note I = inv[unfolded sel_inv_def]
      have I7: "\<forall>j < k. indexes s ! j < code_n cfg \<and> (indexes s ! j, sharesv s ! j) \<in> set shares \<and>
        (indexes s ! j = j \<or>
         (?m \<le> indexes s ! j \<and>
          (\<exists>p. ?m - e_iter s \<le> p \<and> p < ?m \<and> indexes s ! j = fst (shares ! p))))"
        using I by (elim conjE)
      have I11: "\<forall>p. ?m - e_iter s \<le> p \<and> p < ?m \<longrightarrow> (\<exists>j < k. indexes s ! j = fst (shares ! p))"
        using I by (elim conjE)
      from I7 i0 have mem: "(indexes s ! i0, sharesv s ! i0) \<in> set shares"
        and alt: "indexes s ! i0 = i0 \<or>
           (\<exists>p. ?m - e_iter s \<le> p \<and> p < ?m \<and> indexes s ! i0 = fst (shares ! p))" by blast+
      have "fst (indexes s ! i0, sharesv s ! i0) \<in> fst ` set shares"
        using mem by (rule imageI)
      then have "indexes s ! i0 \<in> set ?ks" by simp
      then have "indexes s ! i0 \<noteq> i0" using i0(2) by metis
      with alt obtain p where "?m - e_iter s \<le> p" "p < ?m" by blast
      then have "?m - e_iter s \<le> ?m - 1 \<and> ?m - 1 < ?m" using m0 by simp
      with I11 obtain j where j: "j < k" "indexes s ! j = fst (shares ! (?m - 1))" by blast
      obtain a where a: "a < ?m" "?ks ! a = idx" using idx(1)
        by (metis in_set_conv_nth length_map)
      have "?ks ! a + (?m - 1 - a) \<le> ?ks ! (?m - 1)"
        using strict_sorted_nth_gap[OF assms(2), of a "?m - 1"] a by simp
      then have "idx \<le> fst (shares ! (?m - 1))" using a m0 by simp
      moreover have "indexes s ! j < n" using I7 j(1) F by simp
      ultimately show False using idx(2) j(2) by simp
    qed
    with no_fail show ?thesis by blast
  next
    case False
    with res obtain j where r: "r = Some InvalidIndex" and j: "j < k"
      "sel_inv cfg shares share_size j s" "fst (shares ! b_iter s) \<noteq> j"
      "n \<le> fst (shares ! (?m - 1 - e_iter s))" by auto
    have fail: "decode cfg shares share_size = (emitted s, Some InvalidIndex)"
      using run r F assms(3) by (simp add: decode_def)
    have be: "b_iter s + e_iter s = j" using j(2) unfolding sel_inv_def by (elim conjE)
    then have b: "b_iter s < ?m" using j(1) assms(3) by simp
    have "j \<notin> set ?ks" using sel_inv_front_iff[OF j(2) assms(2) b] j(3) by simp
    moreover have "fst (shares ! (?m - 1 - e_iter s)) \<in> set ?ks"
      using m0 by (metis diff_less length_map nth_map nth_mem zero_less_Suc diff_diff_left plus_1_eq_Suc)
    ultimately show ?thesis using fail j(1,4) by blast
  qed
qed

theorem invalid_index_selected_witness:
  "\<exists>tr. decode \<lparr>code_k = 3, code_n = 5,
            enc_matrix = [1, 0, 0, 0, 1, 0, 0, 0, 1, 15, 8, 6, 45, 48, 28]\<rparr>
          [(0, [0, 1, 2, 3]), (1, [4, 5, 6, 7]), (7, [9, 9, 9, 9])] 4 = (tr, Some InvalidIndex)"
proof -
  let ?sh = "[(0 :: nat, [0, 1, 2, 3]), (1, [4, 5, 6, 7]), (7, [9, 9, 9, 9 :: byte])]"
  have srt: "sorted_wrt (<) (map fst ?sh)" by simp
  have km: "3 \<le> length ?sh" by simp
  have "(\<exists>idx \<in> set (map fst ?sh). 5 \<le> idx) \<and> (\<exists>i < 3. i \<notin> set (map fst ?sh))"
    by (auto intro!: exI[of _ 2])
  then show ?thesis
    using invalid_index_selected[OF fec_code_new_3_5 srt km, of 4] by blast
qed

text \<open>
  The claim as stated fails where the shares of the indices \<open>0, \<dots>, k - 1\<close> are all
  supplied: a further share of index 5, with \<open>n = 2\<close>, is never looked at, and
  \<open>decode\<close> succeeds.
\<close>

theorem invalid_index_counterexample:
  "fec_code_new 65536 1 2 = Inr \<lparr>code_k = 1, code_n = 2, enc_matrix = [1, 1]\<rparr> \<and>
   (5 :: nat) \<ge> 2 \<and>
   decode \<lparr>code_k = 1, code_n = 2, enc_matrix = [1, 1]\<rparr> [(0, [1]), (5, [2])] 1 =
     ([\<lparr>em_pos = 0, em_total = 1, em_data = [1], em_len = 1\<rparr>], None)"
proof -
  have "decode \<lparr>code_k = 1, code_n = 2, enc_matrix = [1, 1]\<rparr> [(0, [1]), (5, [2])] 1 =
     ([\<lparr>em_pos = 0, em_total = 1, em_data = [1], em_len = 1\<rparr>], None)"
    by code_simp
  then show ?thesis using fec_code_new_1_2 by simp
qed

text \<open>
  Claim C10. In a call with at least \<open>k\<close> shares of distinct indices below \<open>n\<close>,
  the selection loop ends without an exception. At every position \<open>i\<close>, in the state
  the loop has reached there, both iterators point at an entry, and if the front
  iterator's index is not \<open>i\<close> (the fallback branch) the back iterator's index, which
  is recorded for \<open>i\<close>, is at least \<open>k\<close>. So an index below \<open>k\<close> is recorded
  only at its own position, no index is recorded twice, and row \<open>i\<close> of the decode
  matrix is the \<open>i\<close>-th unit row if the index recorded is below \<open>k\<close> and the row of
  that index of the encoding matrix otherwise.
\<close>

theorem selection_invariant:
  assumes "fec_code_new avail k n = Inr cfg"
    and "sorted_wrt (<) (map fst shares)"
    and "k \<le> length shares"
    and "\<forall>idx \<in> set (map fst shares). idx < n"
  shows "\<exists>s. select_loop cfg shares share_size [0..<k] (select_init k) = (None, s) \<and>
     (\<forall>i < k. \<exists>si. select_loop cfg shares share_size [0..<i] (select_init k) = (None, si) \<and>
          b_iter si < length shares \<and> e_iter si < length shares \<and>
          (fst (shares ! b_iter si) \<noteq> i \<longrightarrow>
             k \<le> fst (rev shares ! e_iter si) \<and> indexes s ! i = fst (rev shares ! e_iter si))) \<and>
     (\<forall>i < k. indexes s ! i < k \<longrightarrow> indexes s ! i = i) \<and>
     length (indexes s) = k \<and> distinct (indexes s) \<and>
     (\<forall>i < k. \<forall>col < k.
        m_dec s ! (i * k + col) =
          (if indexes s ! i < k then (if col = i then 1 else 0)
           else enc_matrix cfg ! (indexes s ! i * k + col)))"
proof -
  note F = fec_code_new_fields[OF assms(1)]
  let ?ks = "map fst shares"
  let ?m = "length shares"
  have km: "code_k cfg \<le> ?m" and kn: "code_k cfg \<le> code_n cfg" using F assms(3) by simp_all
  have prefix: "\<exists>si. select_loop cfg shares share_size [0..<i] (select_init k) = (None, si) \<and>
      sel_inv cfg shares share_size i si" if "i \<le> k" for i
  proof -
    have ik: "i \<le> code_k cfg" using that F by simp
    from select_loop_prefix[OF assms(2) km kn ik, of share_size] obtain r s
      where run: "select_loop cfg shares share_size [0..<i] (select_init k) = (r, s)"
        and res: "if \<forall>c \<in> set (spec_select ?ks [0..<i]). c < code_n cfg
          then r = None \<and> sel_inv cfg shares share_size i s
          else r = Some InvalidIndex \<and>
           (\<exists>j < i. sel_inv cfg shares share_size j s \<and> fst (shares ! b_iter s) \<noteq> j \<and>
              code_n cfg \<le> fst (shares ! (?m - 1 - e_iter s)) \<and>
              take j (indexes s) = take j (spec_select ?ks [0..<i]))"
      using F by auto
    have "\<forall>c \<in> set (spec_select ?ks [0..<i]). c < code_n cfg"
    proof (rule ccontr)
      assume "\<not> (\<forall>c \<in> set (spec_select ?ks [0..<i]). c < code_n cfg)"
      with res obtain j where "j < i" "code_n cfg \<le> fst (shares ! (?m - 1 - e_iter s))" by auto
      moreover have "0 < ?m" using F(3) assms(3) by (rule less_le_trans)
      then have "fst (shares ! (?m - 1 - e_iter s)) \<in> set ?ks"
        by (metis diff_less length_map nth_map nth_mem zero_less_Suc diff_diff_left plus_1_eq_Suc)
      ultimately show False using assms(4) F by auto
    qed
    with res run show ?thesis by auto
  qed
  from prefix[of k] obtain s
    where run: "select_loop cfg shares share_size [0..<k] (select_init k) = (None, s)"
      and inv: "sel_inv cfg shares share_size k s" by auto
  have inv': "sel_inv cfg shares share_size (code_k cfg) s" using inv F by simp
  note D = sel_inv_indexes[OF inv']
  have steps: "\<forall>i < k. \<exists>si. select_loop cfg shares share_size [0..<i] (select_init k) = (None, si) \<and>
          b_iter si < ?m \<and> e_iter si < ?m \<and>
          (fst (shares ! b_iter si) \<noteq> i \<longrightarrow>
             k \<le> fst (rev shares ! e_iter si) \<and> indexes s ! i = fst (rev shares ! e_iter si))"
  proof (intro allI impI)
    fix i assume ik: "i < k"
    from prefix[of i] ik obtain si
      where runi: "select_loop cfg shares share_size [0..<i] (select_init k) = (None, si)"
        and invi: "sel_inv cfg shares share_size i si" by auto
    have be: "b_iter si + e_iter si = i" using invi unfolding sel_inv_def by (elim conjE)
    then have b: "b_iter si < ?m" and e: "e_iter si < ?m" using ik assms(3) by simp_all
    have rv: "rev shares ! e_iter si = shares ! (?m - 1 - e_iter si)"
      using e by (simp add: rev_nth)
    have "k \<le> fst (rev shares ! e_iter si) \<and> indexes s ! i = fst (rev shares ! e_iter si)"
      if miss: "fst (shares ! b_iter si) \<noteq> i"
    proof -
      have ik': "i < code_k cfg" using ik F by simp
      note B = select_step_back[OF invi assms(2) km ik' miss]
      have "indexes s ! i = spec_choice (spec_rest ?ks [0..<i]) i"
        using D(1) spec_select_nth[OF ik, of ?ks] F by simp
      then show ?thesis using B(1,2) rv assms(3) by simp
    qed
    with runi b e show "\<exists>si. select_loop cfg shares share_size [0..<i] (select_init k) = (None, si) \<and>
          b_iter si < ?m \<and> e_iter si < ?m \<and>
          (fst (shares ! b_iter si) \<noteq> i \<longrightarrow>
             k \<le> fst (rev shares ! e_iter si) \<and> indexes s ! i = fst (rev shares ! e_iter si))"
      by blast
  qed
  have own: "\<forall>i < k. indexes s ! i < k \<longrightarrow> indexes s ! i = i"
    using D(3) F assms(3) by auto
  have rows: "\<forall>i < k. \<forall>col < k.
        m_dec s ! (i * k + col) =
          (if indexes s ! i < k then (if col = i then 1 else 0)
           else enc_matrix cfg ! (indexes s ! i * k + col))"
    using inv' unfolding sel_inv_def F(1) by (elim conjE)
  show ?thesis
    using run steps own D(2,4) rows F by blast
qed

theorem selection_invariant_witness:
  "\<exists>s. select_loop \<lparr>code_k = 3, code_n = 5,
            enc_matrix = [1, 0, 0, 0, 1, 0, 0, 0, 1, 15, 8, 6, 45, 48, 28]\<rparr>
          [(1, [4, 5, 6, 7]), (3, [16, 17, 18, 19]), (4, [32, 33, 34, 35])] 4 [0..<3]
          (select_init 3) = (None, s) \<and>
        indexes s = [4, 1, 3] \<and> distinct (indexes s) \<and>
        m_dec s = [45, 48, 28, 0, 1, 0, 15, 8, 6]"
proof -
  let ?C = "\<lparr>code_k = 3, code_n = 5,
            enc_matrix = [1, 0, 0, 0, 1, 0, 0, 0, 1, 15, 8, 6, 45, 48, 28]\<rparr>"
  let ?sh = "[(1 :: nat, [4, 5, 6, 7]), (3, [16, 17, 18, 19]), (4, [32, 33, 34, 35 :: byte])]"
  have srt: "sorted_wrt (<) (map fst ?sh)" by simp
  have km: "3 \<le> length ?sh" by simp
  have valid: "\<forall>idx \<in> set (map fst ?sh). idx < 5" by simp
  have run: "select_loop ?C ?sh 4 [0..<3] (select_init 3) =
      (None, \<lparr>b_iter = 1, e_iter = 2, m_dec = [45, 48, 28, 0, 1, 0, 15, 8, 6],
               indexes = [4, 1, 3],
               sharesv = [[32, 33, 34, 35], [4, 5, 6, 7], [16, 17, 18, 19]],
               emitted = [\<lparr>em_pos = 1, em_total = 3, em_data = [4, 5, 6, 7], em_len = 4\<rparr>]\<rparr>)"
    by code_simp
  from selection_invariant[OF fec_code_new_3_5 srt km valid, of 4] obtain s
    where s: "select_loop ?C ?sh 4 [0..<3] (select_init 3) = (None, s)" "distinct (indexes s)"
    by blast
  from s(1) run have "indexes s = [4, 1, 3]" "m_dec s = [45, 48, 28, 0, 1, 0, 15, 8, 6]"
    by simp_all
  with s show ?thesis by blast
qed

section \<open>The order of the emissions\<close>

lemma filter_split_distinct:
  "distinct (filter P [0..<k] @ filter (\<lambda>i. \<not> P i) [0..<k])"
  by auto

lemma filter_split_set:
  "set (filter P [0..<k] @ filter (\<lambda>i. \<not> P i) [0..<k]) = {..<k}"
  by auto

text \<open>
  Claim C9. A call of \<open>decode\<close> that succeeds has run the selection loop, then
  \<open>invert_matrix\<close>, then the recovery loop. Its calls of \<open>output\<close> are those of
  the selection loop followed by those of the recovery loop. The first are the
  positions whose recorded index is below \<open>k\<close>, each with the data of its own share;
  the second are the other positions, in increasing order. Together they are every
  position below \<open>k\<close>, once.
\<close>

theorem emission_contract:
  assumes "fec_code_new avail k n = Inr cfg"
    and "sorted_wrt (<) (map fst shares)"
    and "decode cfg shares share_size = (tr, None)"
  shows "\<exists>s m. select_loop cfg shares share_size [0..<k] (select_init k) = (None, s) \<and>
     invert_matrix (m_dec s) k = Inr m \<and>
     snd (recover k share_size m s) = None \<and>
     tr = emitted s @ fst (recover k share_size m s) \<and>
     map em_pos (emitted s) = filter (\<lambda>i. indexes s ! i < k) [0..<k] \<and>
     (\<forall>e \<in> set (emitted s). indexes s ! em_pos e = em_pos e \<and>
          em_data e = take share_size (sharesv s ! em_pos e)) \<and>
     map em_pos (fst (recover k share_size m s)) = filter (\<lambda>i. k \<le> indexes s ! i) [0..<k] \<and>
     sorted_wrt (<) (map em_pos (fst (recover k share_size m s))) \<and>
     distinct (map em_pos tr) \<and> set (map em_pos tr) = {..<k} \<and> length tr = k"
proof -
  note F = fec_code_new_fields[OF assms(1)]
  have km: "k \<le> length shares"
    using assms(3) F by (auto simp: decode_def split: if_splits)
  from select_loop_full[OF assms(1,2) km, of share_size] obtain r s
    where run: "select_loop cfg shares share_size [0..<k] (select_init k) = (r, s)"
      and res: "if \<forall>c \<in> set (spec_select (map fst shares) [0..<k]). c < n
      then r = None \<and> sel_inv cfg shares share_size k s
      else r = Some InvalidIndex \<and>
           (\<exists>j < k. sel_inv cfg shares share_size j s \<and> fst (shares ! b_iter s) \<noteq> j \<and>
              n \<le> fst (shares ! (length shares - 1 - e_iter s)) \<and>
              take j (indexes s) = take j (spec_select (map fst shares) [0..<k]))"
    by blast
  have r: "r = None"
    using assms(3) run km F by (cases r) (auto simp: decode_def)
  with res have inv: "sel_inv cfg shares share_size (code_k cfg) s"
    using F by (auto split: if_splits)
  obtain m es where m: "invert_matrix (m_dec s) k = Inr m"
    and rc: "recover k share_size m s = (es, None)"
    and tr': "tr = emitted s @ es"
    using assms(3) run r km F by (auto simp: decode_def split: sum.splits prod.splits)
  have rn: "snd (recover k share_size m s) = None" and es: "fst (recover k share_size m s) = es"
    using rc by simp_all
  have tr: "tr = emitted s @ fst (recover k share_size m s)" using tr' es by simp
  note D = sel_inv_indexes[OF inv]
  have em: "emitted s =
       map (\<lambda>j. \<lparr>em_pos = j, em_total = k, em_data = take share_size (sharesv s ! j),
                  em_len = share_size\<rparr>)
         (filter (\<lambda>j. indexes s ! j < k) [0..<k])"
    using inv unfolding sel_inv_def F(1) by (elim conjE)
  have p1: "map em_pos (emitted s) = filter (\<lambda>i. indexes s ! i < k) [0..<k]"
    unfolding em by (simp add: comp_def)
  have own: "\<And>i. i < k \<Longrightarrow> indexes s ! i < k \<Longrightarrow> indexes s ! i = i"
    using D(3) F km by auto
  have p2: "\<forall>e \<in> set (emitted s). indexes s ! em_pos e = em_pos e \<and>
          em_data e = take share_size (sharesv s ! em_pos e)"
    unfolding em using own by auto
  have "map em_pos es = filter (\<lambda>i. indexes s ! i \<ge> k) [0..<length (indexes s)]"
    by (rule emit_loop_positions[OF rc[unfolded recover_def]]) (auto split: sum.splits)
  then have p3: "map em_pos (fst (recover k share_size m s)) =
      filter (\<lambda>i. k \<le> indexes s ! i) [0..<k]"
    using D(2) F es by simp
  have p4: "sorted_wrt (<) (map em_pos (fst (recover k share_size m s)))"
    unfolding p3 by (rule sorted_wrt_filter) (simp add: sorted_wrt_upt)
  have pos: "map em_pos tr =
      filter (\<lambda>i. indexes s ! i < k) [0..<k] @ filter (\<lambda>i. \<not> indexes s ! i < k) [0..<k]"
    unfolding tr using p1 p3 by (simp add: not_less)
  have p5: "distinct (map em_pos tr)" unfolding pos by (rule filter_split_distinct)
  have p6: "set (map em_pos tr) = {..<k}" unfolding pos by (rule filter_split_set)
  have "length (map em_pos tr) = k"
    using p5 p6 by (metis card_lessThan distinct_card)
  then have p7: "length tr = k" by simp
  show ?thesis
    using run r m rn tr p1 p2 p3 p4 p5 p6 p7 by blast
qed

theorem emission_contract_witness:
  "\<exists>s m. select_loop \<lparr>code_k = 3, code_n = 5,
            enc_matrix = [1, 0, 0, 0, 1, 0, 0, 0, 1, 15, 8, 6, 45, 48, 28]\<rparr>
          [(1, [4, 5, 6, 7]), (3, [16, 17, 18, 19]), (4, [32, 33, 34, 35])] 4 [0..<3]
          (select_init 3) = (None, s) \<and>
     invert_matrix (m_dec s) 3 = Inr m \<and>
     map em_pos (emitted s) = [1] \<and> map em_pos (fst (recover 3 4 m s)) = [0, 2] \<and>
     map em_pos (fst (decode \<lparr>code_k = 3, code_n = 5,
            enc_matrix = [1, 0, 0, 0, 1, 0, 0, 0, 1, 15, 8, 6, 45, 48, 28]\<rparr>
          [(1, [4, 5, 6, 7]), (3, [16, 17, 18, 19]), (4, [32, 33, 34, 35])] 4)) = [1, 0, 2]"
proof -
  let ?C = "\<lparr>code_k = 3, code_n = 5,
            enc_matrix = [1, 0, 0, 0, 1, 0, 0, 0, 1, 15, 8, 6, 45, 48, 28]\<rparr>"
  let ?sh = "[(1 :: nat, [4, 5, 6, 7]), (3, [16, 17, 18, 19]), (4, [32, 33, 34, 35 :: byte])]"
  have srt: "sorted_wrt (<) (map fst ?sh)" by simp
  have dec: "decode ?C ?sh 4 =
     ([\<lparr>em_pos = 1, em_total = 3, em_data = [4, 5, 6, 7], em_len = 4\<rparr>,
       \<lparr>em_pos = 0, em_total = 3, em_data = [0, 1, 2, 3], em_len = 4\<rparr>,
       \<lparr>em_pos = 2, em_total = 3, em_data = [8, 9, 10, 11], em_len = 4\<rparr>], None)"
    by code_simp
  have run: "indexes (snd (select_loop ?C ?sh 4 [0..<3] (select_init 3))) = [4, 1, 3]"
    by code_simp
  from emission_contract[OF fec_code_new_3_5 srt dec] obtain s m
    where s: "select_loop ?C ?sh 4 [0..<3] (select_init 3) = (None, s)"
      "invert_matrix (m_dec s) 3 = Inr m"
      "map em_pos (emitted s) = filter (\<lambda>i. indexes s ! i < 3) [0..<3]"
      "map em_pos (fst (recover 3 4 m s)) = filter (\<lambda>i. 3 \<le> indexes s ! i) [0..<3]"
    by blast
  from s(1) run have idx: "indexes s = [4, 1, 3]" by simp
  have u: "[0..<3] = [0, 1, 2]" by (simp add: upt_rec)
  have "map em_pos (emitted s) = [1]" "map em_pos (fst (recover 3 4 m s)) = [0, 2]"
    using s(3,4) unfolding idx u by simp_all
  then show ?thesis using s(1,2) dec by auto
qed

section \<open>The field as a type\<close>

text \<open>
  The bytes with XOR as addition and \<open>mul\<close> as multiplication form a field. The type
  \<open>gf\<close> is a copy of the bytes that carries this structure, so that sums and powers
  of field elements can be written.
\<close>

typedef gf = "UNIV :: byte set"
  by simp

setup_lifting type_definition_gf

instantiation gf :: field
begin

lift_definition zero_gf :: gf is 0 .

lift_definition one_gf :: gf is 1 .

lift_definition plus_gf :: "gf \<Rightarrow> gf \<Rightarrow> gf" is "\<lambda>a b. a XOR b" .

lift_definition minus_gf :: "gf \<Rightarrow> gf \<Rightarrow> gf" is "\<lambda>a b. a XOR b" .

lift_definition uminus_gf :: "gf \<Rightarrow> gf" is "\<lambda>a. a" .

lift_definition times_gf :: "gf \<Rightarrow> gf \<Rightarrow> gf" is mul .

lift_definition inverse_gf :: "gf \<Rightarrow> gf" is gf_inv .

lift_definition divide_gf :: "gf \<Rightarrow> gf \<Rightarrow> gf" is "\<lambda>a b. mul a (gf_inv b)" .

instance
proof
  fix a b c :: gf
  show "a * b * c = a * (b * c)" by transfer (rule mul_assoc)
  show "a * b = b * a" by transfer (rule mul_commute)
  show "1 * a = a" by transfer simp
  show "a + b + c = a + (b + c)" by transfer (simp add: ac_simps)
  show "a + b = b + a" by transfer (simp add: ac_simps)
  show "0 + a = a" by transfer simp
  show "- a + a = 0" by transfer simp
  show "a - b = a + - b" by transfer simp
  show "(a + b) * c = a * c + b * c" by transfer (rule mul_xor_left)
  show "(0 :: gf) \<noteq> 1" by transfer simp
  show "a \<noteq> 0 \<Longrightarrow> inverse a * a = 1" by transfer (simp add: mul_commute[of "gf_inv _"] mul_inv)
  show "a div b = a * inverse b" by transfer simp
  show "inverse (0 :: gf) = 0" by transfer (rule gf_inv_zero)
qed

end

definition G :: "byte \<Rightarrow> gf" where
  "G = Abs_gf"

lemma G_zero [simp]: "G 0 = 0"
  by (simp add: G_def zero_gf.abs_eq)

lemma G_one [simp]: "G 1 = 1"
  by (simp add: G_def one_gf.abs_eq)

lemma G_xor [simp]: "G (a XOR b) = G a + G b"
  by (simp add: G_def plus_gf.abs_eq)

lemma G_mul [simp]: "G (mul a b) = G a * G b"
  by (simp add: G_def times_gf.abs_eq)

lemma G_inverse [simp]: "G (GF_INVERSE ! unat a) = inverse (G a)"
  by (simp add: G_def inverse_gf.abs_eq gf_inv_def)

lemma G_eq_iff [simp]: "G a = G b \<longleftrightarrow> a = b"
  by (simp add: G_def Abs_gf_inject)

lemma G_eq_0_iff [simp]: "G a = 0 \<longleftrightarrow> a = 0"
  using G_eq_iff[of a 0] by (simp del: G_eq_iff)

lemma G_eq_1_iff [simp]: "G a = 1 \<longleftrightarrow> a = 1"
  using G_eq_iff[of a 1] by (simp del: G_eq_iff)

lemma gf_add_self [simp]: "(a :: gf) + a = 0"
  by transfer simp

lemma gf_minus [simp]: "(a :: gf) - b = a + b"
  by transfer simp

lemma gf_uminus [simp]: "- (a :: gf) = a"
  by transfer simp

lemma gf_add_cancel [simp]: "(a :: gf) + (a + b) = b"
  by (simp add: add.assoc[symmetric])

lemma gf_sum_eq_0_iff: "(a :: gf) + b = 0 \<longleftrightarrow> a = b"
  by (metis add.right_neutral gf_add_cancel gf_add_self)

subsection \<open>The antilog table as powers of the generator\<close>

lemma exp_Suc: "i < 254 \<Longrightarrow> GF_EXP ! Suc i = mul 2 (GF_EXP ! i)"
proof -
  assume i: "i < 254"
  have l2: "unat (GF_LOG ! 2) = 1" by (simp add: GF_LOG_def)
  show ?thesis using i by (simp add: mul_eq[of 2] exp_nonzero l2 log_exp)
qed

lemma exp_0: "GF_EXP ! 0 = 1"
  by (simp add: GF_EXP_def)

lemma exp_255: "GF_EXP ! 255 = 1"
  by (simp add: GF_EXP_def)

lemma exp_power: "i < 255 \<Longrightarrow> G (GF_EXP ! i) = G 2 ^ i"
proof (induction i)
  case 0
  then show ?case by (simp add: exp_0)
next
  case (Suc i)
  then show ?case by (simp add: exp_Suc)
qed

lemma generator_order: "G 2 ^ 255 = 1"
proof -
  have l2: "unat (GF_LOG ! 2) = 1" by (simp add: GF_LOG_def)
  have "G 2 ^ 255 = G 2 * G 2 ^ 254" by (simp add: power_Suc[symmetric] del: power_Suc)
  also have "\<dots> = G (mul 2 (GF_EXP ! 254))" by (simp add: exp_power)
  also have "mul 2 (GF_EXP ! 254) = GF_EXP ! 0"
    by (simp add: mul_eq[of 2] exp_nonzero l2 log_exp)
  finally show ?thesis by (simp add: exp_0)
qed

lemma exp_power_mod: "G (GF_EXP ! (i mod 255)) = G 2 ^ i"
proof -
  have "G 2 ^ i = G 2 ^ (255 * (i div 255) + i mod 255)" by simp
  also have "\<dots> = (G 2 ^ 255) ^ (i div 255) * G 2 ^ (i mod 255)"
    by (simp only: power_add power_mult)
  also have "\<dots> = G (GF_EXP ! (i mod 255))" by (simp add: generator_order exp_power)
  finally show ?thesis by simp
qed

text \<open>
  The points of the code: 0 for row 0 and \<open>GF_EXP[r]\<close> for row \<open>r\<close> from 1 on, as
  \<open>create_inverted_vdm\<close> and the constructor take them.
\<close>

definition pt :: "nat \<Rightarrow> gf" where
  "pt r = (if r = 0 then 0 else G (GF_EXP ! r))"

lemma pt_power: "0 < r \<Longrightarrow> r \<le> 255 \<Longrightarrow> pt r = G 2 ^ r"
proof -
  assume r: "0 < r" "r \<le> 255"
  show ?thesis
  proof (cases "r = 255")
    case True
    then show ?thesis by (simp add: pt_def exp_255 generator_order)
  next
    case False
    then show ?thesis using r by (simp add: pt_def exp_power)
  qed
qed

lemma pt_exp_table:
  "0 < r \<Longrightarrow> r \<le> 255 \<Longrightarrow> G (GF_EXP ! ((r * c) mod 255)) = pt r ^ c"
  by (simp add: pt_power exp_power_mod power_mult)

lemma pt_nonzero: "0 < r \<Longrightarrow> r \<le> 255 \<Longrightarrow> pt r \<noteq> 0"
proof -
  assume r: "0 < r" "r \<le> 255"
  have "pt r = G (GF_EXP ! (r mod 255))" using r by (simp add: pt_power exp_power_mod)
  then show ?thesis by (simp add: exp_nonzero)
qed

lemma pt_inj: "inj_on pt {..<256}"
proof (rule inj_onI)
  fix r r' assume r: "r \<in> {..<256}" and r': "r' \<in> {..<256}" and eq: "pt r = pt r'"
  have pos: "a = b" if a: "0 < a" "a \<le> 255" and b: "0 < b" "b \<le> 255" and e: "pt a = pt b" for a b
  proof -
    have "G (GF_EXP ! (a mod 255)) = G (GF_EXP ! (b mod 255))"
      using a b e by (simp add: pt_power exp_power_mod)
    then have "unat (GF_LOG ! unat (GF_EXP ! (a mod 255))) = unat (GF_LOG ! unat (GF_EXP ! (b mod 255)))"
      by simp
    then have "a mod 255 = b mod 255" by (simp add: log_exp)
    then show "a = b" using a b by (metis le_neq_implies_less mod_less mod_self less_numeral_extra(3))
  qed
  show "r = r'"
  proof (cases "r = 0")
    case True
    then have "pt r' = 0" using eq by (simp add: pt_def)
    then have "r' = 0" using pt_nonzero[of r'] r' by auto
    with True show ?thesis by simp
  next
    case False
    then have "pt r \<noteq> 0" using pt_nonzero[of r] r by simp
    then have "pt r' \<noteq> 0" using eq by simp
    then have "r' \<noteq> 0" by (auto simp: pt_def split: if_splits)
    then show ?thesis using pos[of r r'] False r r' eq by simp
  qed
qed

section \<open>Polynomials over the field\<close>

text \<open>
  A polynomial is the list of its coefficients, the constant one first. \<open>sdiv a\<close> is
  the synthetic division by \<open>x - a\<close>: the quotient and the remainder.
\<close>

fun peval :: "gf \<Rightarrow> gf list \<Rightarrow> gf" where
  "peval x [] = 0"
| "peval x (c # cs) = c + x * peval x cs"

fun sdiv :: "gf \<Rightarrow> gf list \<Rightarrow> gf list \<times> gf" where
  "sdiv a [] = ([], 0)"
| "sdiv a [c] = ([], c)"
| "sdiv a (c # c' # cs) = (let (q, r) = sdiv a (c' # cs) in (r # q, c + a * r))"

lemma peval_append: "peval x (as @ bs) = peval x as + x ^ length as * peval x bs"
  by (induction as) (simp_all add: algebra_simps)

lemma peval_map_upt: "peval x (map w [0..<k]) = (\<Sum>i<k. w i * x ^ i)"
  by (induction k) (simp_all add: peval_append algebra_simps)

lemma sdiv_length: "length (fst (sdiv a cs)) = length cs - 1"
  by (induction a cs rule: sdiv.induct) (auto split: prod.splits)

lemma sdiv_eval: "peval x cs = (x + a) * peval x (fst (sdiv a cs)) + snd (sdiv a cs)"
proof (induction a cs rule: sdiv.induct)
  case (1 a)
  then show ?case by simp
next
  case (2 a c)
  then show ?case by simp
next
  case (3 a c c' cs)
  obtain q r where qr: "sdiv a (c' # cs) = (q, r)" by (cases "sdiv a (c' # cs)")
  with 3 have IH: "peval x (c' # cs) = (x + a) * peval x q + r" by simp
  have "peval x (c # c' # cs) = c + x * ((x + a) * peval x q + r)"
    using IH by simp
  also have "\<dots> = (x + a) * (r + x * peval x q) + (c + a * r)"
    by (simp add: algebra_simps)
  finally show ?case using qr by simp
qed

lemma sdiv_zero:
  "\<forall>c \<in> set (fst (sdiv a cs)). c = 0 \<Longrightarrow> snd (sdiv a cs) = 0 \<Longrightarrow> \<forall>c \<in> set cs. c = 0"
proof (induction a cs rule: sdiv.induct)
  case (1 a)
  then show ?case by simp
next
  case (2 a c)
  then show ?case by simp
next
  case (3 a c c' cs)
  obtain q r where qr: "sdiv a (c' # cs) = (q, r)" by (cases "sdiv a (c' # cs)")
  from "3.prems" qr have r: "r = 0" and q: "\<forall>c \<in> set q. c = 0" and c: "c + a * r = 0"
    by simp_all
  from "3.IH" qr q r have "\<forall>c \<in> set (c' # cs). c = 0" by simp
  moreover from c r have "c = 0" by simp
  ultimately show ?case by simp
qed

text \<open>A polynomial with as many distinct roots as coefficients is zero.\<close>

lemma roots_zero:
  "distinct xs \<Longrightarrow> length xs = length cs \<Longrightarrow> \<forall>x \<in> set xs. peval x cs = 0 \<Longrightarrow>
     \<forall>c \<in> set cs. c = 0"
proof (induction xs arbitrary: cs)
  case Nil
  then show ?case by simp
next
  case (Cons a xs)
  obtain q r where qr: "sdiv a cs = (q, r)" by (cases "sdiv a cs")
  have ev: "\<And>x. peval x cs = (x + a) * peval x q + r"
    using sdiv_eval[of _ cs a] qr by simp
  have "peval a cs = 0" using Cons.prems by simp
  then have r: "r = 0" using ev[of a] by simp
  have lq: "length xs = length q"
    using sdiv_length[of a cs] qr Cons.prems(2) by simp
  have "\<forall>x \<in> set xs. peval x q = 0"
  proof
    fix x assume x: "x \<in> set xs"
    then have "x \<noteq> a" using Cons.prems(1) by auto
    then have "x + a \<noteq> 0" by (simp add: gf_sum_eq_0_iff)
    moreover have "(x + a) * peval x q = 0" using ev[of x] r Cons.prems(3) x by simp
    ultimately show "peval x q = 0" by simp
  qed
  then have "\<forall>c \<in> set q. c = 0" using Cons.IH[of q] Cons.prems(1) lq by simp
  then show ?case using sdiv_zero[of a cs] qr r by simp
qed

lemma roots_zero_fun:
  assumes "inj_on pts {..<k}" and "\<forall>r < k. (\<Sum>i<k. w i * pts r ^ i) = 0"
  shows "\<forall>i < k. w i = (0 :: gf)"
proof -
  have d: "distinct (map pts [0..<k])"
    using assms(1) by (simp add: distinct_map atLeast0LessThan)
  have "\<forall>x \<in> set (map pts [0..<k]). peval x (map w [0..<k]) = 0"
    using assms(2) by (auto simp: peval_map_upt)
  with d have "\<forall>c \<in> set (map w [0..<k]). c = 0"
    by (intro roots_zero[of "map pts [0..<k]"]) simp_all
  then show ?thesis by auto
qed

section \<open>The inverted Vandermonde matrix\<close>

lemma peval_sum: "peval x cs = (\<Sum>i<length cs. cs ! i * x ^ i)"
proof -
  have "peval x (map (\<lambda>i. cs ! i) [0..<length cs]) = (\<Sum>i<length cs. cs ! i * x ^ i)"
    by (rule peval_map_upt)
  then show ?thesis by (simp add: map_nth)
qed

subsection \<open>The coefficients of the product\<close>

lemma poly_inner_nth:
  assumes "hi < length c"
  shows "length (fold (\<lambda>j c. c[j := c ! j XOR mul q (c ! (j + 1))]) [lo..<hi] c) = length c \<and>
         fold (\<lambda>j c. c[j := c ! j XOR mul q (c ! (j + 1))]) [lo..<hi] c ! x =
           (if lo \<le> x \<and> x < hi then c ! x XOR mul q (c ! (x + 1)) else c ! x)"
  using assms
proof (induction hi arbitrary: x)
  case 0
  then show ?case by simp
next
  case (Suc hi)
  show ?case
  proof (cases "lo \<le> hi")
    case False
    then show ?thesis by auto
  next
    case True
    let ?c1 = "fold (\<lambda>j c. c[j := c ! j XOR mul q (c ! (j + 1))]) [lo..<hi] c"
    have IH: "length ?c1 = length c"
      "\<And>y. ?c1 ! y = (if lo \<le> y \<and> y < hi then c ! y XOR mul q (c ! (y + 1)) else c ! y)"
      using Suc by simp_all
    have "fold (\<lambda>j c. c[j := c ! j XOR mul q (c ! (j + 1))]) [lo..<Suc hi] c =
        ?c1[hi := ?c1 ! hi XOR mul q (?c1 ! (hi + 1))]"
      using True by simp
    then show ?thesis using IH Suc.prems True
      by (cases "x = hi") (simp_all add: nth_list_update)
  qed
qed

lemma vdm_poly_step_nth:
  assumes "length c = k" and "0 < i" and "i < k"
  shows "length (vdm_poly_step k i c) = k"
    and "vdm_poly_step k i c ! x =
           (if k - i \<le> x \<and> x < k - 1 then c ! x XOR mul (GF_EXP ! i) (c ! (x + 1))
            else if x = k - 1 then c ! x XOR GF_EXP ! i else c ! x)"
proof -
  have hi: "k - 1 < length c" using assms by simp
  have lo: "k - 1 - (i - 1) = k - i" using assms by simp
  note P = poly_inner_nth[OF hi, of "GF_EXP ! i" "k - i"]
  show "length (vdm_poly_step k i c) = k"
    using P assms by (simp add: vdm_poly_step_def Let_def lo)
  show "vdm_poly_step k i c ! x =
           (if k - i \<le> x \<and> x < k - 1 then c ! x XOR mul (GF_EXP ! i) (c ! (x + 1))
            else if x = k - 1 then c ! x XOR GF_EXP ! i else c ! x)"
    using P[of x] P[of "k - 1"] assms
    by (cases "x = k - 1") (simp_all add: vdm_poly_step_def Let_def lo nth_list_update)
qed

text \<open>
  The value of the monic polynomial whose other coefficients are the entries of \<open>c\<close>
  from \<open>off\<close> on.
\<close>

definition monic_val :: "byte list \<Rightarrow> nat \<Rightarrow> gf \<Rightarrow> gf" where
  "monic_val c off x =
     (\<Sum>m<length c - off. G (c ! (off + m)) * x ^ m) + x ^ (length c - off)"

lemma monic_val_step:
  assumes len: "length c = k" and i: "0 < i" "i < k"
    and z1: "c ! (k - 1 - i) = 0" and z0: "c ! (k - i) = 0"
  shows "monic_val (vdm_poly_step k i c) (k - 1 - i) x =
           (x + G (GF_EXP ! i)) * monic_val c (k - i) x"
proof -
  let ?c' = "vdm_poly_step k i c"
  let ?Q = "G (GF_EXP ! i)"
  define g where "g m = G (c ! (k - i + m))" for m
  define gp where "gp m = (if m < i then g m else 1)" for m
  define g' where "g' m = G (?c' ! (k - 1 - i + m))" for m
  note N = vdm_poly_step_nth[OF len i]
  have d: "length c - (k - i) = i" "length ?c' - (k - 1 - i) = Suc i"
    using len i N(1) by simp_all
  have old: "monic_val c (k - i) x = (\<Sum>m<i. g m * x ^ m) + x ^ i"
    by (simp add: monic_val_def d g_def)
  have new: "monic_val ?c' (k - 1 - i) x = (\<Sum>m<Suc i. g' m * x ^ m) + x ^ Suc i"
    unfolding monic_val_def d g'_def by simp
  have g'0: "g' 0 = 0"
  proof -
    have "\<not> k - i \<le> k - 1 - i" "k - 1 - i \<noteq> k - 1" using i by simp_all
    then have "?c' ! (k - 1 - i) = c ! (k - 1 - i)" using N(2)[of "k - 1 - i"] by simp
    then show ?thesis using z1 by (simp add: g'_def)
  qed
  have g'S: "g' (Suc m) = g m + ?Q * gp (Suc m)" if "m < i" for m
  proof -
    have idx: "k - 1 - i + Suc m = k - i + m" using i by simp
    have gS: "g' (Suc m) = G (?c' ! (k - i + m))" unfolding g'_def idx by (rule refl)
    have gpS: "gp (Suc m) = (if Suc m < i then G (c ! (k - i + m + 1)) else 1)"
      by (simp add: gp_def g_def)
    show ?thesis
    proof (cases "Suc m < i")
      case True
      then have "k - i \<le> k - i + m \<and> k - i + m < k - 1" using i by arith
      then have "?c' ! (k - i + m) = c ! (k - i + m) XOR mul (GF_EXP ! i) (c ! (k - i + m + 1))"
        using N(2)[of "k - i + m"] by simp
      then show ?thesis unfolding gS gpS using True by (simp add: g_def)
    next
      case False
      then have m: "Suc m = i" using that by simp
      then have e: "k - i + m = k - 1" using i by simp
      have "?c' ! (k - 1) = c ! (k - 1) XOR GF_EXP ! i"
        using N(2)[of "k - 1"] by simp
      then show ?thesis unfolding gS gpS e using False e by (simp add: g_def)
    qed
  qed
  have gp0: "gp 0 = 0" using i z0 by (simp add: gp_def g_def)
  have shift: "(\<Sum>m<i. gp (Suc m) * x ^ Suc m) = (\<Sum>m<i. g m * x ^ m) + x ^ i"
  proof -
    have "(\<Sum>m<Suc i. gp m * x ^ m) = gp 0 * x ^ 0 + (\<Sum>m<i. gp (Suc m) * x ^ Suc m)"
      by (rule sum.lessThan_Suc_shift)
    moreover have "(\<Sum>m<Suc i. gp m * x ^ m) = (\<Sum>m<i. g m * x ^ m) + x ^ i"
      by (simp add: gp_def)
    ultimately show ?thesis using gp0 by simp
  qed
  have "(\<Sum>m<Suc i. g' m * x ^ m) = g' 0 * x ^ 0 + (\<Sum>m<i. g' (Suc m) * x ^ Suc m)"
    by (rule sum.lessThan_Suc_shift)
  also have "\<dots> = (\<Sum>m<i. (g m + ?Q * gp (Suc m)) * x ^ Suc m)"
    using g'0 g'S by simp
  also have "\<dots> = x * (\<Sum>m<i. g m * x ^ m) + ?Q * (\<Sum>m<i. gp (Suc m) * x ^ Suc m)"
    by (simp add: algebra_simps sum.distrib sum_distrib_left)
  finally have "(\<Sum>m<Suc i. g' m * x ^ m) =
      x * (\<Sum>m<i. g m * x ^ m) + ?Q * ((\<Sum>m<i. g m * x ^ m) + x ^ i)"
    using shift by simp
  then show ?thesis unfolding new old by (simp add: algebra_simps)
qed

lemma monic_val_0: "off < length c \<Longrightarrow> monic_val c off 0 = G (c ! off)"
proof -
  assume off: "off < length c"
  then obtain d where d: "length c - off = Suc d" by (metis Suc_diff_Suc)
  have "(\<Sum>m<Suc d. G (c ! (off + m)) * 0 ^ m) =
      G (c ! (off + 0)) * 0 ^ 0 + (\<Sum>m<d. G (c ! (off + Suc m)) * 0 ^ Suc m)"
    by (rule sum.lessThan_Suc_shift)
  then show ?thesis by (simp add: monic_val_def d)
qed

lemma replicate_update_same: "(replicate k x)[j := x] = replicate k x"
  by (induction k arbitrary: j) (auto split: nat.splits)

lemma vdm_poly_prefix:
  assumes "i < k"
  shows "length (fold (vdm_poly_step k) [1..<Suc i] (replicate k 0)) = k \<and>
         (\<forall>x < k - 1 - i. fold (vdm_poly_step k) [1..<Suc i] (replicate k 0) ! x = 0) \<and>
         (\<forall>x. monic_val (fold (vdm_poly_step k) [1..<Suc i] (replicate k 0)) (k - 1 - i) x =
               (\<Prod>m\<le>i. x + pt m))"
  using assms
proof (induction i)
  case 0
  have "length (replicate k (0 :: byte)) - (k - 1) = 1" using 0 by simp
  then show ?case using 0 by (simp add: monic_val_def pt_def)
next
  case (Suc i)
  define c where "c = fold (vdm_poly_step k) [1..<Suc i] (replicate k 0)"
  from Suc have len: "length c = k" and zeros: "\<forall>x < k - 1 - i. c ! x = 0"
    and val: "\<And>x. monic_val c (k - 1 - i) x = (\<Prod>m\<le>i. x + pt m)"
    unfolding c_def by simp_all
  have i: "0 < Suc i" "Suc i < k" using Suc.prems by simp_all
  have off: "k - Suc i = k - 1 - i" by simp
  have z1: "c ! (k - 1 - Suc i) = 0" using zeros Suc.prems by simp
  have val': "\<And>x. monic_val c (k - Suc i) x = (\<Prod>m\<le>i. x + pt m)"
    unfolding off by (rule val)
  have "(\<Prod>m\<le>i. 0 + pt m) = 0" by (rule prod_zero) (auto simp: pt_def intro!: bexI[of _ 0])
  then have "monic_val c (k - Suc i) 0 = 0" using val'[of 0] by simp
  moreover have "k - Suc i < length c" using len Suc.prems by simp
  ultimately have z0: "c ! (k - Suc i) = 0"
    using monic_val_0[of "k - Suc i" c] by simp
  define c' where "c' = vdm_poly_step k (Suc i) c"
  note N = vdm_poly_step_nth[OF len i, folded c'_def]
  have unf: "fold (vdm_poly_step k) [1..<Suc (Suc i)] (replicate k 0) = c'"
    by (simp add: c'_def c_def)
  have p1: "length c' = k" by (rule N(1))
  have p2: "\<forall>x < k - 1 - Suc i. c' ! x = 0"
  proof (intro allI impI)
    fix x assume x: "x < k - 1 - Suc i"
    then have "\<not> (k - Suc i \<le> x \<and> x < k - 1)" "x \<noteq> k - 1" by simp_all
    then have "c' ! x = c ! x" unfolding N(2)[of x] by (simp only: if_False)
    then show "c' ! x = 0" using zeros x by simp
  qed
  have p3: "monic_val c' (k - 1 - Suc i) x = (\<Prod>m\<le>Suc i. x + pt m)" for x
  proof -
    have "monic_val c' (k - 1 - Suc i) x = (x + G (GF_EXP ! Suc i)) * monic_val c (k - Suc i) x"
      unfolding c'_def by (rule monic_val_step[OF len i z1 z0])
    also have "\<dots> = (x + pt (Suc i)) * (\<Prod>m\<le>i. x + pt m)"
      by (simp add: val' pt_def)
    finally show ?thesis by (simp add: mult.commute)
  qed
  show ?case unfolding unf using p1 p2 p3 by blast
qed

lemma vdm_poly_val:
  assumes "0 < k"
  shows "length (vdm_poly k) = k"
    and "peval x (map G (vdm_poly k) @ [1]) = (\<Prod>m<k. x + pt m)"
proof -
  obtain i where k: "k = Suc i" using assms by (cases k) auto
  have c: "vdm_poly k = fold (vdm_poly_step k) [1..<Suc i] (replicate k 0)"
    by (simp add: vdm_poly_def replicate_update_same k del: replicate_Suc)
  note P = vdm_poly_prefix[of i k, folded c]
  have ik: "i < k" using k by simp
  show len: "length (vdm_poly k) = k" using P[OF ik] by simp
  have "monic_val (vdm_poly k) 0 x = (\<Prod>m\<le>i. x + pt m)" using P[OF ik] k by simp
  moreover have "{..i} = {..<k}" using k by auto
  moreover have "peval x (map G (vdm_poly k) @ [1]) = monic_val (vdm_poly k) 0 x"
  proof -
    have "peval x (map G (vdm_poly k) @ [1]) =
        peval x (map G (vdm_poly k)) + x ^ length (map G (vdm_poly k)) * peval x [1]"
      by (rule peval_append)
    then show ?thesis
      by (simp add: peval_sum[of x "map G (vdm_poly k)"] monic_val_def)
  qed
  ultimately show "peval x (map G (vdm_poly k) @ [1]) = (\<Prod>m<k. x + pt m)" by simp
qed

subsection \<open>The synthetic division of a row\<close>

lemma vdm_synth_suffix:
  assumes "length b0 = k" and "0 < k" and "d \<le> k - 1"
  shows "case fold (\<lambda>i (b, t). let b' = b[i := c ! (i + 1) XOR mul p (b ! (i + 1))]
                       in (b', b' ! i XOR mul p t))
           (rev [k - 1 - d..<k - 1]) (b0[k - 1 := 1], 1) of
         (b, t) \<Rightarrow> length b = k \<and> b ! (k - 1) = 1 \<and>
           (\<forall>i. k - 1 - d \<le> i \<and> i < k - 1 \<longrightarrow> b ! i = c ! (i + 1) XOR mul p (b ! (i + 1))) \<and>
           G t = peval (G p) (map G (drop (k - 1 - d) b))"
  using assms(3)
proof (induction d)
  case 0
  have "drop (k - 1) (b0[k - 1 := 1]) = [1]"
    using assms(1,2) by (simp add: list_eq_iff_nth_eq)
  then show ?case using assms(1,2) by auto
next
  case (Suc d)
  define F where "F = (\<lambda>i (b, t). let b' = b[i := c ! (i + 1) XOR mul p (b ! (i + 1))]
                       in (b', b' ! i XOR mul p t))"
  define lo where "lo = k - 1 - Suc d"
  have lo: "Suc lo = k - 1 - d" "lo < k - 1" using Suc.prems by (simp_all add: lo_def)
  obtain b t where bt: "fold F (rev [Suc lo..<k - 1]) (b0[k - 1 := 1], 1) = (b, t)"
    by (cases "fold F (rev [Suc lo..<k - 1]) (b0[k - 1 := 1], 1)")
  from Suc have IH: "length b = k" "b ! (k - 1) = 1"
    "\<forall>i. Suc lo \<le> i \<and> i < k - 1 \<longrightarrow> b ! i = c ! (i + 1) XOR mul p (b ! (i + 1))"
    "G t = peval (G p) (map G (drop (Suc lo) b))"
    using bt unfolding F_def[symmetric] lo(1)[symmetric] by simp_all
  define b' where "b' = b[lo := c ! (lo + 1) XOR mul p (b ! (lo + 1))]"
  have up: "[lo..<k - 1] = lo # [Suc lo..<k - 1]" using lo(2) by (simp add: upt_conv_Cons)
  have run: "fold F (rev [lo..<k - 1]) (b0[k - 1 := 1], 1) = (b', b' ! lo XOR mul p t)"
    unfolding up using bt by (simp add: F_def b'_def Let_def)
  have lob: "lo < length b" using IH(1) lo(2) by simp
  have q1: "length b' = k" using IH(1) by (simp add: b'_def)
  have q2: "b' ! (k - 1) = 1" using IH(2) lo(2) by (simp add: b'_def)
  have q3: "\<forall>i. lo \<le> i \<and> i < k - 1 \<longrightarrow> b' ! i = c ! (i + 1) XOR mul p (b' ! (i + 1))"
  proof (intro allI impI)
    fix i assume i: "lo \<le> i \<and> i < k - 1"
    show "b' ! i = c ! (i + 1) XOR mul p (b' ! (i + 1))"
    proof (cases "i = lo")
      case True
      then show ?thesis using lob by (simp add: b'_def)
    next
      case False
      then have "Suc lo \<le> i \<and> i < k - 1" using i by simp
      then have "b ! i = c ! (i + 1) XOR mul p (b ! (i + 1))" using IH(3) by blast
      then show ?thesis using False i by (simp add: b'_def)
    qed
  qed
  have "drop lo b' = b' ! lo # drop (Suc lo) b'"
    using q1 lo(2) by (simp add: Cons_nth_drop_Suc)
  moreover have "drop (Suc lo) b' = drop (Suc lo) b" by (simp add: b'_def)
  ultimately have q4: "G (b' ! lo XOR mul p t) = peval (G p) (map G (drop lo b'))"
    using IH(4) by simp
  show ?case
    unfolding F_def[symmetric] lo_def[symmetric] run using q1 q2 q3 q4 by simp
qed

lemma vdm_synth_spec:
  assumes "length b0 = k" and "0 < k" and "vdm_synth k c p b0 = (b, t)"
  shows "length b = k" and "b ! (k - 1) = 1"
    and "\<forall>i < k - 1. b ! i = c ! (i + 1) XOR mul p (b ! (i + 1))"
    and "G t = peval (G p) (map G b)"
proof -
  have d: "k - 1 \<le> k - 1" by simp
  note S = vdm_synth_suffix[OF assms(1,2) d, of c p]
  have "k - 1 - (k - 1) = 0" by simp
  with S assms(3) have "length b = k \<and> b ! (k - 1) = 1 \<and>
           (\<forall>i. 0 \<le> i \<and> i < k - 1 \<longrightarrow> b ! i = c ! (i + 1) XOR mul p (b ! (i + 1))) \<and>
           G t = peval (G p) (map G (drop 0 b))"
    by (simp add: vdm_synth_def)
  then show "length b = k" "b ! (k - 1) = 1"
    "\<forall>i < k - 1. b ! i = c ! (i + 1) XOR mul p (b ! (i + 1))"
    "G t = peval (G p) (map G b)" by simp_all
qed

lemma synth_quotient_suffix:
  assumes "length b = k" and "length c = k" and "b ! (k - 1) = 1"
    and "\<forall>i < k - 1. b ! i = c ! (i + 1) XOR mul p (b ! (i + 1))"
    and "d < k"
  shows "peval x (map G (drop (k - d) c) @ [1]) =
           (x + G p) * peval x (map G (drop (k - d) b)) + G (b ! (k - d - 1))"
  using assms(5)
proof (induction d)
  case 0
  then show ?case using assms(1,2,3) by simp
next
  case (Suc d)
  define m where "m = k - Suc d"
  have m: "Suc m = k - d" "0 < m" "m < k" using Suc.prems by (simp_all add: m_def)
  have m1: "k - d - 1 = m" using m by simp
  from Suc have "peval x (map G (drop (k - d) c) @ [1]) =
           (x + G p) * peval x (map G (drop (k - d) b)) + G (b ! (k - d - 1))" by simp
  then have IH: "peval x (map G (drop (Suc m) c) @ [1]) =
           (x + G p) * peval x (map G (drop (Suc m) b)) + G (b ! m)"
    unfolding m1 m(1) .
  have dc: "drop m c = c ! m # drop (Suc m) c" using m(3) assms(2) by (simp add: Cons_nth_drop_Suc)
  have db: "drop m b = b ! m # drop (Suc m) b" using m(3) assms(1) by (simp add: Cons_nth_drop_Suc)
  have "m - 1 < k - 1" using m(2,3) by simp
  then have "b ! (m - 1) = c ! (m - 1 + 1) XOR mul p (b ! (m - 1 + 1))" using assms(4) by blast
  then have rec: "G (b ! (m - 1)) = G (c ! m) + G p * G (b ! m)" using m(2) by simp
  have "peval x (map G (drop m c) @ [1]) =
      G (c ! m) + x * ((x + G p) * peval x (map G (drop (Suc m) b)) + G (b ! m))"
    unfolding dc using IH by simp
  also have "\<dots> = (x + G p) * peval x (map G (drop m b)) + G (b ! (m - 1))"
    unfolding db rec by (simp add: algebra_simps)
  finally have "peval x (map G (drop m c) @ [1]) =
      (x + G p) * peval x (map G (drop m b)) + G (b ! (m - 1))" .
  then show ?case unfolding m_def by simp
qed

lemma synth_quotient:
  assumes "length b = k" and "length c = k" and "0 < k" and "b ! (k - 1) = 1"
    and "\<forall>i < k - 1. b ! i = c ! (i + 1) XOR mul p (b ! (i + 1))"
  shows "peval x (map G c @ [1]) =
           (x + G p) * peval x (map G b) + (G (c ! 0) + G p * G (b ! 0))"
proof -
  have d: "k - 1 < k" using assms(3) by simp
  have k1: "k - (k - 1) = 1" using assms(3) by simp
  have S: "peval x (map G (drop 1 c) @ [1]) = (x + G p) * peval x (map G (drop 1 b)) + G (b ! 0)"
    using synth_quotient_suffix[OF assms(1,2,4,5) d, of x] unfolding k1 by simp
  have dc: "c = c ! 0 # drop 1 c" using assms(2,3) by (cases c) simp_all
  have db: "b = b ! 0 # drop 1 b" using assms(1,3) by (cases b) simp_all
  have "peval x (map G c @ [1]) = G (c ! 0) + x * peval x (map G (drop 1 c) @ [1])"
    by (subst dc) simp
  also have "\<dots> = G (c ! 0) + x * ((x + G p) * peval x (map G (drop 1 b)) + G (b ! 0))"
    using S by simp
  also have "\<dots> = (x + G p) * (G (b ! 0) + x * peval x (map G (drop 1 b))) +
      (G (c ! 0) + G p * G (b ! 0))"
    by (simp add: algebra_simps)
  also have "G (b ! 0) + x * peval x (map G (drop 1 b)) = peval x (map G b)"
    by (subst (2) db) simp
  finally show ?thesis .
qed

subsection \<open>Each row of the inverse is a Lagrange polynomial\<close>

lemma synth_lagrange:
  assumes k: "0 < k" "k \<le> 256" and row: "row < k" and b0: "length b0 = k"
    and run: "vdm_synth k (vdm_poly k) p b0 = (b, t)" and p: "G p = pt row"
  shows "length b = k" and "G t \<noteq> 0"
    and "\<forall>r < k. (\<Sum>i<k. pt r ^ i * G (b ! i)) = (if r = row then G t else 0)"
proof -
  note S = vdm_synth_spec[OF b0 k(1) run]
  note V = vdm_poly_val[OF k(1)]
  show lb: "length b = k" by (rule S(1))
  define R where "R = G (vdm_poly k ! 0) + G p * G (b ! 0)"
  have quot: "(\<Prod>m<k. x + pt m) = (x + pt row) * peval x (map G b) + R" for x
    using synth_quotient[OF S(1) V(1) k(1) S(2) S(3), of x] unfolding V(2) R_def p .
  have zero: "(\<Prod>m<k. pt r + pt m) = 0" if "r < k" for r
  proof -
    have "\<exists>m \<in> {..<k}. pt r + pt m = 0" using that by (auto intro!: bexI[of _ r])
    then show ?thesis by (simp add: prod_zero_iff)
  qed
  have "R = 0" using quot[of "pt row"] zero[OF row] by simp
  then have quot': "(\<Prod>m<k. x + pt m) = (x + pt row) * peval x (map G b)" for x
    using quot[of x] by simp
  have inj: "inj_on pt {..<k}"
    by (rule inj_on_subset[OF pt_inj]) (use k(2) in auto)
  have other: "peval (pt r) (map G b) = 0" if r: "r < k" "r \<noteq> row" for r
  proof -
    have "pt r \<noteq> pt row" using inj r row by (auto dest: inj_onD)
    then have "pt r + pt row \<noteq> 0" by (simp add: gf_sum_eq_0_iff)
    moreover have "(pt r + pt row) * peval (pt r) (map G b) = 0"
      using quot'[of "pt r"] zero[OF r(1)] by simp
    ultimately show ?thesis by simp
  qed
  have sum: "peval x (map G b) = (\<Sum>i<k. x ^ i * G (b ! i))" for x
    unfolding peval_sum using lb by (simp add: mult.commute)
  show t: "G t \<noteq> 0"
  proof
    assume "G t = 0"
    then have "peval (pt row) (map G b) = 0" using S(4) p by simp
    then have "\<forall>r < k. peval (pt r) (map G b) = 0" using other by metis
    then have "\<forall>r < k. (\<Sum>i<k. G (b ! i) * pt r ^ i) = 0"
      unfolding sum by (simp add: mult.commute)
    from roots_zero_fun[OF inj this] have "G (b ! (k - 1)) = 0" using k(1) by simp
    then show False using S(2) by simp
  qed
  show "\<forall>r < k. (\<Sum>i<k. pt r ^ i * G (b ! i)) = (if r = row then G t else 0)"
  proof (intro allI impI)
    fix r assume r: "r < k"
    show "(\<Sum>i<k. pt r ^ i * G (b ! i)) = (if r = row then G t else 0)"
    proof (cases "r = row")
      case True
      then show ?thesis using S(4) p sum[of "pt row"] by simp
    next
      case False
      then show ?thesis using other[OF r False] sum[of "pt r"] by simp
    qed
  qed
qed

lemma vdm_row_step:
  assumes k: "0 < k" "k \<le> 256" and row: "row < k" and b: "length b = k"
    and v: "k * k \<le> length vdm"
    and run: "vdm_row k (vdm_poly k) row (vdm, b) = (vdm', b')"
  shows "length vdm' = length vdm" and "length b' = k"
    and "\<forall>x. (\<forall>col < k. x \<noteq> col * k + row) \<longrightarrow> vdm' ! x = vdm ! x"
    and "\<forall>r < k. (\<Sum>i<k. pt r ^ i * G (vdm' ! (i * k + row))) = (if r = row then 1 else 0)"
proof -
  define p where "p = (if row = 0 then 0 else GF_EXP ! row)"
  obtain b1 t where bt: "vdm_synth k (vdm_poly k) p b = (b1, t)"
    by (cases "vdm_synth k (vdm_poly k) p b")
  have p: "G p = pt row" by (simp add: p_def pt_def)
  note L = synth_lagrange[OF k row b bt p]
  define val where "val = (\<lambda>col. mul (GF_INVERSE ! unat t) (b1 ! col))"
  have r: "vdm' = fold (\<lambda>col v. v[col * k + row := val col]) [0..<k] vdm" "b' = b1"
    using run bt by (auto simp add: vdm_row_def p_def[symmetric] val_def)
  show "length vdm' = length vdm" by (simp add: r)
  show "length b' = k" using L(1) by (simp add: r)
  show "\<forall>x. (\<forall>col < k. x \<noteq> col * k + row) \<longrightarrow> vdm' ! x = vdm ! x"
  proof (intro allI impI)
    fix x assume "\<forall>col < k. x \<noteq> col * k + row"
    then have "\<forall>col \<in> set [0..<k]. col * k + row \<noteq> x" by auto
    then show "vdm' ! x = vdm ! x" unfolding r by (rule fold_update_miss)
  qed
  have inj: "inj_on (\<lambda>col. col * k + row) (set [0..<k])"
    using k(1) by (auto intro!: inj_onI)
  have hit: "vdm' ! (i * k + row) = val i" if i: "i < k" for i
  proof -
    have a1: "i \<in> set [0..<k]" using i by simp
    have "i * k + row < k * k" using i row by (rule row_index_less)
    then have a3: "i * k + row < length vdm" using v by simp
    show ?thesis unfolding r by (rule fold_update_hit[OF a1 inj a3])
  qed
  show "\<forall>r < k. (\<Sum>i<k. pt r ^ i * G (vdm' ! (i * k + row))) = (if r = row then 1 else 0)"
  proof (intro allI impI)
    fix r assume r: "r < k"
    have "(\<Sum>i<k. pt r ^ i * G (vdm' ! (i * k + row))) =
        (\<Sum>i<k. inverse (G t) * (pt r ^ i * G (b1 ! i)))"
      by (rule sum.cong) (simp_all add: hit val_def)
    also have "\<dots> = inverse (G t) * (\<Sum>i<k. pt r ^ i * G (b1 ! i))"
      by (simp add: sum_distrib_left)
    also have "\<dots> = (if r = row then 1 else 0)"
      using L(2,3) r by simp
    finally show "(\<Sum>i<k. pt r ^ i * G (vdm' ! (i * k + row))) = (if r = row then 1 else 0)" .
  qed
qed

lemma vdm_rows:
  assumes k: "0 < k" "k \<le> 256" and v: "k * k \<le> length vdm" and b: "length b = k"
    and R: "R \<le> k"
  shows "case fold (vdm_row k (vdm_poly k)) [0..<R] (vdm, b) of
     (vdm', b') \<Rightarrow> length vdm' = length vdm \<and> length b' = k \<and>
       (\<forall>x. (\<forall>col < k. \<forall>row < R. x \<noteq> col * k + row) \<longrightarrow> vdm' ! x = vdm ! x) \<and>
       (\<forall>row < R. \<forall>r < k.
          (\<Sum>i<k. pt r ^ i * G (vdm' ! (i * k + row))) = (if r = row then 1 else 0))"
  using R
proof (induction R)
  case 0
  then show ?case using b by simp
next
  case (Suc R)
  obtain v1 b1 where s1: "fold (vdm_row k (vdm_poly k)) [0..<R] (vdm, b) = (v1, b1)"
    by (cases "fold (vdm_row k (vdm_poly k)) [0..<R] (vdm, b)")
  obtain v2 b2 where s2: "vdm_row k (vdm_poly k) R (v1, b1) = (v2, b2)"
    by (cases "vdm_row k (vdm_poly k) R (v1, b1)")
  from Suc s1 have IH: "length v1 = length vdm" "length b1 = k"
    "\<forall>x. (\<forall>col < k. \<forall>row < R. x \<noteq> col * k + row) \<longrightarrow> v1 ! x = vdm ! x"
    "\<forall>row < R. \<forall>r < k.
          (\<Sum>i<k. pt r ^ i * G (v1 ! (i * k + row))) = (if r = row then 1 else 0)"
    by simp_all
  have Rk: "R < k" using Suc.prems by simp
  have v1: "k * k \<le> length v1" using v IH(1) by simp
  note St = vdm_row_step[OF k Rk IH(2) v1 s2]
  have run: "fold (vdm_row k (vdm_poly k)) [0..<Suc R] (vdm, b) = (v2, b2)"
    using s1 s2 by simp
  have q3: "\<forall>x. (\<forall>col < k. \<forall>row < Suc R. x \<noteq> col * k + row) \<longrightarrow> v2 ! x = vdm ! x"
  proof (intro allI impI)
    fix x assume x: "\<forall>col < k. \<forall>row < Suc R. x \<noteq> col * k + row"
    then have "\<forall>col < k. x \<noteq> col * k + R" by simp
    then have "v2 ! x = v1 ! x" using St(3) by blast
    moreover have "\<forall>col < k. \<forall>row < R. x \<noteq> col * k + row" using x by simp
    then have "v1 ! x = vdm ! x" using IH(3) by blast
    ultimately show "v2 ! x = vdm ! x" by simp
  qed
  have q4: "\<forall>row < Suc R. \<forall>r < k.
          (\<Sum>i<k. pt r ^ i * G (v2 ! (i * k + row))) = (if r = row then 1 else 0)"
  proof (intro allI impI)
    fix row r assume row: "row < Suc R" and r: "r < k"
    show "(\<Sum>i<k. pt r ^ i * G (v2 ! (i * k + row))) = (if r = row then 1 else 0)"
    proof (cases "row = R")
      case True
      then show ?thesis using St(4) r by simp
    next
      case False
      then have rR: "row < R" using row by simp
      have "v2 ! (i * k + row) = v1 ! (i * k + row)" if "i < k" for i
      proof -
        have "\<forall>col < k. i * k + row \<noteq> col * k + R"
          using rR Rk False by (simp add: row_index_eq)
        then show ?thesis using St(3) by blast
      qed
      then have "(\<Sum>i<k. pt r ^ i * G (v2 ! (i * k + row))) =
          (\<Sum>i<k. pt r ^ i * G (v1 ! (i * k + row)))"
        by (intro sum.cong) simp_all
      then show ?thesis using IH(4) rR r by simp
    qed
  qed
  show ?case unfolding run using St(1,2) IH(1) q3 q4 by simp
qed

text \<open>
  The matrix written by \<open>create_inverted_vdm\<close> is the inverse of the Vandermonde matrix
  of the points \<open>pt 0, \<dots>, pt (k - 1)\<close>; entries past \<open>k * k\<close> are left alone.
\<close>

lemma create_inverted_vdm_spec:
  assumes k: "0 < k" "k \<le> 256" and v: "k * k \<le> length vdm"
  shows "\<exists>t. create_inverted_vdm vdm k = Inr t \<and> length t = length vdm \<and>
      (\<forall>x. k * k \<le> x \<longrightarrow> t ! x = vdm ! x) \<and>
      (\<forall>row < k. \<forall>r < k.
          (\<Sum>i<k. pt r ^ i * G (t ! (i * k + row))) = (if r = row then 1 else 0))"
proof (cases "k = 1")
  case True
  then have "0 < length vdm" using v by (cases vdm) simp_all
  then show ?thesis using True by (simp add: create_inverted_vdm_def)
next
  case False
  obtain v1 b1 where s1: "fold (vdm_row k (vdm_poly k)) [0..<k] (vdm, replicate k 0) = (v1, b1)"
    by (cases "fold (vdm_row k (vdm_poly k)) [0..<k] (vdm, replicate k 0)")
  have b: "length (replicate k (0 :: byte)) = k" by simp
  have kk: "k \<le> k" by simp
  from vdm_rows[OF k v b kk] s1 have Q: "length v1 = length vdm"
    "\<forall>x. (\<forall>col < k. \<forall>row < k. x \<noteq> col * k + row) \<longrightarrow> v1 ! x = vdm ! x"
    "\<forall>row < k. \<forall>r < k.
          (\<Sum>i<k. pt r ^ i * G (v1 ! (i * k + row))) = (if r = row then 1 else 0)"
    by simp_all
  have run: "create_inverted_vdm vdm k = Inr v1"
    using False k(1) s1 by (simp add: create_inverted_vdm_def)
  have fr: "\<forall>x. k * k \<le> x \<longrightarrow> v1 ! x = vdm ! x"
  proof (intro allI impI)
    fix x assume x: "k * k \<le> x"
    have "\<forall>col < k. \<forall>row < k. x \<noteq> col * k + row"
    proof (intro allI impI)
      fix col row assume "col < k" "row < k"
      then have "col * k + row < k * k" by (rule row_index_less)
      then show "x \<noteq> col * k + row" using x by simp
    qed
    then show "v1 ! x = vdm ! x" using Q(2) by blast
  qed
  show ?thesis using run Q(1,3) fr by simp
qed

subsection \<open>The entries of the encoding matrix\<close>

lemma fold_matmul_hit:
  assumes "r \<in> set rs" and "col < k" and "r * k + col < length e"
  shows "fold (\<lambda>row e. fold (\<lambda>col e. e[row + col := w row col]) [0..<k] e)
           (map (\<lambda>r. r * k) rs) e ! (r * k + col) = w (r * k) col"
  using assms(1,3)
proof (induction rs arbitrary: e)
  case Nil
  then show ?case by simp
next
  case (Cons a rs)
  define e1 where "e1 = fold (\<lambda>col e. e[a * k + col := w (a * k) col]) [0..<k] e"
  have le1: "length e1 = length e" by (simp add: e1_def)
  show ?case
  proof (cases "r \<in> set rs")
    case True
    have "r * k + col < length e1" using Cons.prems(2) le1 by simp
    from Cons.IH[OF True this] show ?thesis by (simp add: e1_def)
  next
    case False
    then have ar: "a = r" using Cons.prems(1) by simp
    have miss: "\<forall>row \<in> set (map (\<lambda>r. r * k) rs). \<forall>c \<in> set [0..<k]. row + c \<noteq> r * k + col"
      using False assms(2) by (auto simp: row_index_eq)
    have a1: "col \<in> set [0..<k]" using assms(2) by simp
    have a2: "inj_on (\<lambda>c. r * k + c) (set [0..<k])" by (rule inj_onI) simp
    have "e1 ! (r * k + col) = w (r * k) col"
      unfolding e1_def ar
      by (rule fold_update_hit[where f = "\<lambda>c. r * k + c" and v = "w (r * k)", OF a1 a2 Cons.prems(2)])
    then show ?thesis
      using fold_matmul_miss[OF miss, of w e1] by (simp add: e1_def ar)
  qed
qed

lemma G_fold_xor:
  "G (fold (\<lambda>i acc. acc XOR f i) [0..<k] a) = G a + (\<Sum>i<k. G (f i))"
  by (induction k) (simp_all add: add.assoc)

lemma G_matmul_entry:
  "G (matmul_entry tmp_m k row col) =
     (\<Sum>i<k. G (tmp_m ! (row + i)) * G (tmp_m ! (col + i * k)))"
  unfolding matmul_entry_def G_fold_xor by simp

text \<open>
  Every row \<open>r\<close> of the encoding matrix, primary or not, is the row
  \<open>(1, x, x\<^sup>2, \<dots>)\<close> of the point \<open>x = pt r\<close> times one matrix \<open>T\<close>, the
  inverse of the Vandermonde matrix of the first \<open>k\<close> points.
\<close>

lemma enc_matrix_entries:
  assumes cfg: "fec_code_new avail k n = Inr cfg"
  shows "\<exists>T. \<forall>r < n. \<forall>col < k.
           G (enc_matrix cfg ! (r * k + col)) = (\<Sum>i<k. pt r ^ i * T i col)"
proof -
  note F = fec_code_new_fields[OF cfg]
  have k256: "k \<le> 256" using F by simp
  have kk: "k * k \<le> n * k" using F(4) by simp
  have v: "k * k \<le> length (replicate (n * k) (0 :: byte))" using kk by simp
  from create_inverted_vdm_spec[OF F(3) k256 v] obtain t
    where t: "create_inverted_vdm (replicate (n * k) 0) k = Inr t"
      and lt: "length t = n * k"
      and lag: "\<forall>row < k. \<forall>r < k.
          (\<Sum>i<k. pt r ^ i * G (t ! (i * k + row))) = (if r = row then 1 else 0)"
    by auto
  define tmp_m where
    "tmp_m = fold (\<lambda>i t. t[i := GF_EXP ! (((i div k) * (i mod k)) mod 255)]) [k * k..<n * k] t"
  define enc1 where
    "enc1 = fold (\<lambda>i e. e[i * (k + 1) := 1]) [0..<k] (replicate (n * k) (0 :: byte))"
  have enc: "enc_matrix cfg = fold (\<lambda>row e.
                fold (\<lambda>col e. e[row + col := matmul_entry tmp_m k row col]) [0..<k] e)
                  (map (\<lambda>r. r * k) [k..<n]) enc1"
    using cfg[unfolded fec_code_new_eq[OF fec_code_new_granted(1,2,4)[OF cfg]]] F(4,5) t
    by (auto simp: Let_def enc1_def tmp_m_def)
  define T where "T = (\<lambda>i col. G (t ! (i * k + col)))"
  have low: "tmp_m ! (i * k + col) = t ! (i * k + col)" if "i < k" "col < k" for i col
  proof -
    have "i * k + col < k * k" using that by (rule row_index_less)
    then have "\<forall>x \<in> set [k * k..<n * k]. x \<noteq> i * k + col" by auto
    then show ?thesis unfolding tmp_m_def by (rule fold_update_miss)
  qed
  have high: "G (tmp_m ! (r * k + i)) = pt r ^ i" if r: "k \<le> r" "r < n" and i: "i < k" for r i
  proof -
    have lo: "k * k \<le> r * k + i" using r(1) by (simp add: trans_le_add1)
    have "r * k + i < r * k + k" using i by simp
    also have "\<dots> = Suc r * k" by simp
    also have "\<dots> \<le> n * k" using r(2) by (metis Suc_leI mult_le_mono1)
    finally have hi: "r * k + i < n * k" .
    have a1: "r * k + i \<in> set [k * k..<n * k]" using lo hi by simp
    have a2: "inj_on (\<lambda>x. x) (set [k * k..<n * k])" by simp
    have a3: "r * k + i < length t" using hi lt by simp
    have "tmp_m ! (r * k + i) = GF_EXP ! ((((r * k + i) div k) * ((r * k + i) mod k)) mod 255)"
      unfolding tmp_m_def
      by (rule fold_update_hit[where f = "\<lambda>x. x"
            and v = "\<lambda>x. GF_EXP ! (((x div k) * (x mod k)) mod 255)", OF a1 a2 a3])
    also have "\<dots> = GF_EXP ! ((r * i) mod 255)" using i by simp
    finally have "G (tmp_m ! (r * k + i)) = G (GF_EXP ! ((r * i) mod 255))" by simp
    also have "\<dots> = pt r ^ i"
      using r F(3,5) by (intro pt_exp_table) simp_all
    finally show ?thesis .
  qed
  have "\<forall>r < n. \<forall>col < k. G (enc_matrix cfg ! (r * k + col)) = (\<Sum>i<k. pt r ^ i * T i col)"
  proof (intro allI impI)
    fix r col assume r: "r < n" and col: "col < k"
    show "G (enc_matrix cfg ! (r * k + col)) = (\<Sum>i<k. pt r ^ i * T i col)"
    proof (cases "r < k")
      case True
      have "G (enc_matrix cfg ! (r * k + col)) = (if r = col then 1 else 0)"
        using enc_matrix_top[OF cfg True col] by simp
      also have "\<dots> = (\<Sum>i<k. pt r ^ i * T i col)"
        using lag True col by (simp add: T_def)
      finally show ?thesis .
    next
      case False
      then have kr: "k \<le> r" by simp
      have a1: "r \<in> set [k..<n]" using kr r by simp
      have "r * k + col < r * k + k" using col by simp
      also have "\<dots> = Suc r * k" by simp
      also have "\<dots> \<le> n * k" using r by (metis Suc_leI mult_le_mono1)
      finally have hi: "r * k + col < n * k" .
      have a3: "r * k + col < length enc1" using hi by (simp add: enc1_def)
      have "enc_matrix cfg ! (r * k + col) = matmul_entry tmp_m k (r * k) col"
        unfolding enc by (rule fold_matmul_hit[OF a1 col a3])
      then have "G (enc_matrix cfg ! (r * k + col)) =
          (\<Sum>i<k. G (tmp_m ! (r * k + i)) * G (tmp_m ! (col + i * k)))"
        by (simp add: G_matmul_entry)
      also have "\<dots> = (\<Sum>i<k. pt r ^ i * T i col)"
      proof (rule sum.cong)
        fix i assume "i \<in> {..<k}"
        then have i: "i < k" by simp
        have "tmp_m ! (col + i * k) = t ! (i * k + col)"
          using low[OF i col] by (simp add: add.commute)
        then show "G (tmp_m ! (r * k + i)) * G (tmp_m ! (col + i * k)) = pt r ^ i * T i col"
          using high[OF kr r i] by (simp add: T_def)
      qed simp
      finally show ?thesis .
    qed
  qed
  then show ?thesis by blast
qed

subsection \<open>Linear combinations of blocks\<close>

lemma to_int_small: "x < 2 ^ 31 \<Longrightarrow> to_int x = int x"
proof -
  assume x: "x < 2 ^ 31"
  have "take_bit 32 x = x" using x by (intro take_bit_nat_eq_self) simp
  then have "sint (word_of_nat x :: 32 word) = signed_take_bit 31 (int x)"
    by (simp add: sint_uint unsigned_of_nat take_bit_of_nat signed_take_bit_take_bit)
  also have "signed_take_bit 31 (int x) = int x"
    using x by (intro signed_take_bit_int_eq_self) simp_all
  finally show ?thesis by (simp add: to_int_def)
qed

lemma fold_addmul:
  assumes bs: "bs < 2 ^ 31" and buf: "length buf = bs"
  shows "length (fold (\<lambda>j b. addmul b (src j) (c j) (to_int bs)) [0..<k] buf) = bs \<and>
     (\<forall>x < bs. G (fold (\<lambda>j b. addmul b (src j) (c j) (to_int bs)) [0..<k] buf ! x) =
         G (buf ! x) + (\<Sum>j<k. G (c j) * G (src j ! x)))"
proof (induction k)
  case 0
  then show ?case using buf by simp
next
  case (Suc k)
  define b1 where "b1 = fold (\<lambda>j b. addmul b (src j) (c j) (to_int bs)) [0..<k] buf"
  have IH: "length b1 = bs"
    "\<forall>x < bs. G (b1 ! x) = G (buf ! x) + (\<Sum>j<k. G (c j) * G (src j ! x))"
    using Suc by (simp_all add: b1_def)
  have ti: "to_int bs = int bs" using bs by (rule to_int_small)
  have nn: "0 \<le> int bs" by simp
  have run: "fold (\<lambda>j b. addmul b (src j) (c j) (to_int bs)) [0..<Suc k] buf =
      addmul b1 (src k) (c k) (int bs)"
    by (simp add: b1_def ti)
  have "length (addmul b1 (src k) (c k) (int bs)) = bs"
    using addmul_nth(1)[OF nn] IH(1) by simp
  moreover have "\<forall>x < bs. G (addmul b1 (src k) (c k) (int bs) ! x) =
         G (buf ! x) + (\<Sum>j<Suc k. G (c j) * G (src j ! x))"
    using addmul_nth(2)[OF nn, of b1 "src k" "c k"] IH by (simp add: add.assoc)
  ultimately show ?case unfolding run by blast
qed

text \<open>
  The shares that \<open>encode\<close> emits: share \<open>r\<close> is, byte by byte, the combination of the
  \<open>k\<close> blocks of the input with the coefficients of row \<open>r\<close> of the encoding matrix.
\<close>

lemma encode_shares:
  assumes cfg: "fec_code_new avail k n = Inr cfg" and len: "length input = k * bs"
    and pos: "0 < bs" and bs: "bs < 2 ^ 31"
  shows "\<exists>es. encode cfg input = (es, None) \<and> length es = n \<and>
     (\<forall>r < n. em_pos (es ! r) = r \<and> em_len (es ! r) = bs \<and> length (em_data (es ! r)) = bs \<and>
        (r < k \<longrightarrow> em_data (es ! r) = take bs (drop (r * bs) input)) \<and>
        (\<forall>x < bs. G (em_data (es ! r) ! x) =
           (\<Sum>j<k. G (enc_matrix cfg ! (r * k + j)) * G (input ! (j * bs + x)))))"
proof -
  note F = fec_code_new_fields[OF cfg]
  have dv: "length input mod k = 0" "length input div k = bs"
    using len F(3) by simp_all
  define prim where "prim = (\<lambda>i. \<lparr>em_pos = i, em_total = n,
                        em_data = take bs (drop (i * bs) input), em_len = bs\<rparr>)"
  define par where "par = (\<lambda>i. \<lparr>em_pos = i, em_total = n,
                        em_data = fold (\<lambda>j fec_buf.
                                    addmul fec_buf (drop (j * bs) input)
                                      (enc_matrix cfg ! (i * k + j)) (to_int bs))
                                    [0..<k] (replicate bs 0),
                        em_len = bs\<rparr>)"
  define es where "es = map prim [0..<k] @ map par [k..<n]"
  have pb: "parity_block cfg input bs i =
      Inr (fold (\<lambda>j fec_buf. addmul fec_buf (drop (j * bs) input)
                   (enc_matrix cfg ! (i * k + j)) (to_int bs)) [0..<k] (replicate bs 0))" for i
    unfolding parity_block_def F(1) by (rule fold_err_addmul_vec) (use pos in simp)
  have lp: "emit_loop (\<lambda>i. case parity_block cfg input bs i of
                                Inl e \<Rightarrow> Inl e
                              | Inr fec_buf \<Rightarrow>
                                  Inr \<lparr>em_pos = i, em_total = n, em_data = fec_buf,
                                       em_len = bs\<rparr>) [k..<n] = (map par [k..<n], None)"
    by (rule emit_loop_ok) (simp add: pb par_def)
  have run: "encode cfg input = (es, None)"
    using F(1,2,3) dv lp by (simp add: encode_def Let_def es_def prim_def)
  have les: "length es = n" using F(4) by (simp add: es_def)
  have blk: "j * bs + x < length input" if "j < k" "x < bs" for j x
  proof -
    have "j * bs + x < j * bs + bs" using that(2) by simp
    also have "\<dots> = Suc j * bs" by simp
    also have "\<dots> \<le> k * bs" using that(1) by (metis Suc_leI mult_le_mono1)
    finally show ?thesis using len by simp
  qed
  have "em_pos (es ! r) = r \<and> em_len (es ! r) = bs \<and> length (em_data (es ! r)) = bs \<and>
        (r < k \<longrightarrow> em_data (es ! r) = take bs (drop (r * bs) input)) \<and>
        (\<forall>x < bs. G (em_data (es ! r) ! x) =
           (\<Sum>j<k. G (enc_matrix cfg ! (r * k + j)) * G (input ! (j * bs + x))))"
    if r: "r < n" for r
  proof (cases "r < k")
    case True
    have e: "es ! r = prim r" using True by (simp add: es_def nth_append)
    have "r * bs + bs \<le> length input"
    proof -
      have "r * bs + bs = Suc r * bs" by simp
      also have "\<dots> \<le> k * bs" using True by (metis Suc_leI mult_le_mono1)
      finally show ?thesis using len by simp
    qed
    then have l: "length (take bs (drop (r * bs) input)) = bs" by simp
    have "G (take bs (drop (r * bs) input) ! x) =
           (\<Sum>j<k. G (enc_matrix cfg ! (r * k + j)) * G (input ! (j * bs + x)))"
      if x: "x < bs" for x
    proof -
      have "(\<Sum>j<k. G (enc_matrix cfg ! (r * k + j)) * G (input ! (j * bs + x))) =
          (\<Sum>j<k. (if r = j then 1 else 0) * G (input ! (j * bs + x)))"
        by (rule sum.cong) (simp_all add: enc_matrix_top[OF cfg True])
      also have "\<dots> = (\<Sum>j<k. if j = r then G (input ! (j * bs + x)) else 0)"
        by (rule sum.cong) simp_all
      also have "\<dots> = G (input ! (r * bs + x))" using True by simp
      finally show ?thesis using x blk[OF True x] by (simp add: add.commute)
    qed
    then show ?thesis using e l True by (simp add: prim_def)
  next
    case False
    have e: "es ! r = par r" using False r by (simp add: es_def nth_append)
    have z: "length (replicate bs (0 :: byte)) = bs" by simp
    note A = fold_addmul[OF bs z, of "\<lambda>j. drop (j * bs) input" "\<lambda>j. enc_matrix cfg ! (r * k + j)" k]
    have "(\<Sum>j<k. G (enc_matrix cfg ! (r * k + j)) * G (drop (j * bs) input ! x)) =
           (\<Sum>j<k. G (enc_matrix cfg ! (r * k + j)) * G (input ! (j * bs + x)))"
      if x: "x < bs" for x
    proof (rule sum.cong)
      fix j assume "j \<in> {..<k}"
      then have "j * bs + x < length input" using blk x by simp
      then have "drop (j * bs) input ! x = input ! (j * bs + x)" by simp
      then show "G (enc_matrix cfg ! (r * k + j)) * G (drop (j * bs) input ! x) =
          G (enc_matrix cfg ! (r * k + j)) * G (input ! (j * bs + x))" by simp
    qed simp
    then show ?thesis using e A False by (simp add: par_def)
  qed
  then show ?thesis using run les by blast
qed

section \<open>Inversion in place\<close>

subsection \<open>One pivot step exchanges one unknown with one right-hand side\<close>

text \<open>
  The matrix that a step of \<open>invert_matrix\<close> with the pivot on the diagonal entry
  \<open>(c, c)\<close> leaves in the place of the matrix \<open>M\<close>.
\<close>

definition pivot_mx :: "nat \<Rightarrow> (nat \<Rightarrow> nat \<Rightarrow> gf) \<Rightarrow> nat \<Rightarrow> nat \<Rightarrow> gf" where
  "pivot_mx c M i j =
     (if i = c then (if j = c then inverse (M c c) else inverse (M c c) * M c j)
      else (if j = c then M i c * inverse (M c c)
            else M i j + M i c * (inverse (M c c) * M c j)))"

lemma gf_move: "(x :: gf) = y + z \<longleftrightarrow> x + z = y"
proof
  assume "x = y + z"
  then have "x + z = y + (z + z)" by (simp add: add.assoc)
  then show "x + z = y" by simp
next
  assume "x + z = y"
  then have "y + z = (x + z) + z" by simp
  also have "\<dots> = x + (z + z)" by (simp only: add.assoc)
  finally show "x = y + z" by simp
qed

lemma pivot_exchange:
  assumes c: "c < k" and a: "M c c \<noteq> 0"
  shows "(\<forall>i < k. v i = (\<Sum>j<k. M i j * u j)) \<longleftrightarrow>
         (\<forall>i < k. (v(c := u c)) i = (\<Sum>j<k. pivot_mx c M i j * (u(c := v c)) j))"
proof -
  define a' where "a' = inverse (M c c)"
  have aa: "M c c * a' = 1" "a' * M c c = 1" using a by (simp_all add: a'_def)
  define S where "S = (\<lambda>i. \<Sum>j \<in> {..<k} - {c}. M i j * u j)"
  have fin: "finite {..<k}" "c \<in> {..<k}" using c by simp_all
  have old: "(\<Sum>j<k. M i j * u j) = M i c * u c + S i" for i
    unfolding S_def by (rule sum.remove[OF fin])
  have newc: "(\<Sum>j<k. pivot_mx c M c j * (u(c := v c)) j) = a' * v c + a' * S c"
  proof -
    have "(\<Sum>j<k. pivot_mx c M c j * (u(c := v c)) j) =
        pivot_mx c M c c * (u(c := v c)) c +
        (\<Sum>j \<in> {..<k} - {c}. pivot_mx c M c j * (u(c := v c)) j)"
      by (rule sum.remove[OF fin])
    also have "(\<Sum>j \<in> {..<k} - {c}. pivot_mx c M c j * (u(c := v c)) j) =
        (\<Sum>j \<in> {..<k} - {c}. a' * (M c j * u j))"
      by (rule sum.cong) (simp_all add: pivot_mx_def a'_def mult.assoc)
    also have "\<dots> = a' * S c" by (simp add: S_def sum_distrib_left)
    finally show ?thesis by (simp add: pivot_mx_def a'_def)
  qed
  have newi: "(\<Sum>j<k. pivot_mx c M i j * (u(c := v c)) j) =
      M i c * (a' * v c + a' * S c) + S i" if i: "i \<noteq> c" for i
  proof -
    have "(\<Sum>j<k. pivot_mx c M i j * (u(c := v c)) j) =
        pivot_mx c M i c * (u(c := v c)) c +
        (\<Sum>j \<in> {..<k} - {c}. pivot_mx c M i j * (u(c := v c)) j)"
      by (rule sum.remove[OF fin])
    also have "(\<Sum>j \<in> {..<k} - {c}. pivot_mx c M i j * (u(c := v c)) j) =
        (\<Sum>j \<in> {..<k} - {c}. M i j * u j + M i c * (a' * (M c j * u j)))"
      using i by (intro sum.cong) (simp_all add: pivot_mx_def a'_def algebra_simps)
    also have "\<dots> = S i + M i c * (a' * S c)"
      by (simp add: S_def sum.distrib sum_distrib_left)
    finally show ?thesis using i by (simp add: pivot_mx_def a'_def algebra_simps)
  qed
  show ?thesis
  proof
    assume H: "\<forall>i < k. v i = (\<Sum>j<k. M i j * u j)"
    then have vc: "v c = M c c * u c + S c" using c old by simp
    then have "v c + S c = M c c * u c" by (simp add: gf_move)
    then have "a' * (v c + S c) = (a' * M c c) * u c" by (simp add: mult.assoc)
    then have uc: "a' * v c + a' * S c = u c" using aa by (simp add: algebra_simps)
    show "\<forall>i < k. (v(c := u c)) i = (\<Sum>j<k. pivot_mx c M i j * (u(c := v c)) j)"
    proof (intro allI impI)
      fix i assume i: "i < k"
      show "(v(c := u c)) i = (\<Sum>j<k. pivot_mx c M i j * (u(c := v c)) j)"
      proof (cases "i = c")
        case True
        then show ?thesis using newc uc by simp
      next
        case False
        then show ?thesis using newi[OF False] uc H i old by simp
      qed
    qed
  next
    assume H: "\<forall>i < k. (v(c := u c)) i = (\<Sum>j<k. pivot_mx c M i j * (u(c := v c)) j)"
    then have "(v(c := u c)) c = (\<Sum>j<k. pivot_mx c M c j * (u(c := v c)) j)" using c by blast
    then have uc: "u c = a' * v c + a' * S c" using newc by simp
    then have "M c c * u c = (M c c * a') * (v c + S c)" by (simp add: algebra_simps)
    then have "M c c * u c = v c + S c" using aa by simp
    then have vc: "v c = M c c * u c + S c" by (simp add: gf_move)
    show "\<forall>i < k. v i = (\<Sum>j<k. M i j * u j)"
    proof (intro allI impI)
      fix i assume i: "i < k"
      show "v i = (\<Sum>j<k. M i j * u j)"
      proof (cases "i = c")
        case True
        then show ?thesis using vc old by simp
      next
        case False
        have "(v(c := u c)) i = (\<Sum>j<k. pivot_mx c M i j * (u(c := v c)) j)" using H i by blast
        then have "v i = M i c * (a' * v c + a' * S c) + S i"
          using False newi[OF False] by simp
        then show ?thesis using uc old by simp
      qed
    qed
  qed
qed

text \<open>
  After the pivots on the first \<open>c\<close> diagonal entries, the matrix \<open>M\<close> in place relates
  the vectors \<open>x\<close> and \<open>y = D x\<close> of the original matrix \<open>D\<close> with the first \<open>c\<close>
  components exchanged.
\<close>

definition exch :: "nat \<Rightarrow> nat \<Rightarrow> (nat \<Rightarrow> nat \<Rightarrow> gf) \<Rightarrow> (nat \<Rightarrow> nat \<Rightarrow> gf) \<Rightarrow> bool" where
  "exch k c D M \<longleftrightarrow>
     (\<forall>x y. (\<forall>i < k. y i = (\<Sum>j<k. D i j * x j)) \<longleftrightarrow>
            (\<forall>i < k. (if i < c then x i else y i) =
                      (\<Sum>j<k. M i j * (if j < c then y j else x j))))"

lemma exch_0: "exch k 0 D D"
  by (simp add: exch_def)

lemma exch_Suc:
  assumes "exch k c D M" and "c < k" and "M c c \<noteq> 0"
  shows "exch k (Suc c) D (pivot_mx c M)"
  unfolding exch_def
proof (intro allI)
  fix x y :: "nat \<Rightarrow> gf"
  define u where "u = (\<lambda>j. if j < c then y j else x j)"
  define v where "v = (\<lambda>i. if i < c then x i else y i)"
  have u': "u(c := v c) = (\<lambda>j. if j < Suc c then y j else x j)"
    by (auto simp: u_def v_def fun_eq_iff)
  have v': "v(c := u c) = (\<lambda>i. if i < Suc c then x i else y i)"
    by (auto simp: u_def v_def fun_eq_iff)
  have "(\<forall>i < k. y i = (\<Sum>j<k. D i j * x j)) \<longleftrightarrow> (\<forall>i < k. v i = (\<Sum>j<k. M i j * u j))"
    using assms(1) unfolding exch_def u_def v_def by blast
  also have "\<dots> \<longleftrightarrow> (\<forall>i < k. (v(c := u c)) i = (\<Sum>j<k. pivot_mx c M i j * (u(c := v c)) j))"
    by (rule pivot_exchange[where M = M and c = c and k = k, OF assms(2,3)])
  finally show "(\<forall>i < k. y i = (\<Sum>j<k. D i j * x j)) \<longleftrightarrow>
            (\<forall>i < k. (if i < Suc c then x i else y i) =
                      (\<Sum>j<k. pivot_mx c M i j * (if j < Suc c then y j else x j)))"
    unfolding u' v' .
qed

text \<open>
  The leading blocks of \<open>D\<close> are injective: a vector that vanishes from \<open>c\<close> on and
  whose image vanishes below \<open>c\<close> is zero.
\<close>

definition lead_inj :: "nat \<Rightarrow> (nat \<Rightarrow> nat \<Rightarrow> gf) \<Rightarrow> nat \<Rightarrow> bool" where
  "lead_inj k D c \<longleftrightarrow>
     (\<forall>x. (\<forall>j. c \<le> j \<longrightarrow> x j = 0) \<and> (\<forall>i < c. (\<Sum>j<k. D i j * x j) = 0) \<longrightarrow>
          (\<forall>j < c. x j = 0))"

lemma pivot_nonzero:
  assumes E: "exch k c D M" and c: "c < k" and L: "lead_inj k D (Suc c)"
  shows "M c c \<noteq> 0"
proof
  assume z: "M c c = 0"
  define u :: "nat \<Rightarrow> gf" where "u = (\<lambda>j. if j = c then 1 else 0)"
  define v where "v = (\<lambda>i. M i c)"
  define x where "x = (\<lambda>j. if j < c then v j else u j)"
  define y' where "y' = (\<lambda>i. if i < c then u i else v i)"
  have mu: "(\<Sum>j<k. M i j * u j) = v i" for i
  proof -
    have "(\<Sum>j<k. M i j * u j) = (\<Sum>j<k. if j = c then M i c else 0)"
      by (rule sum.cong) (simp_all add: u_def)
    then show ?thesis using c by (simp add: v_def)
  qed
  have xu: "(if j < c then y' j else x j) = u j" for j
    by (simp add: x_def y'_def)
  have xv: "(if i < c then x i else y' i) = v i" for i
    by (simp add: x_def y'_def)
  have "\<forall>i < k. (if i < c then x i else y' i) = (\<Sum>j<k. M i j * (if j < c then y' j else x j))"
    unfolding xu xv by (simp add: mu)
  then have D: "\<forall>i < k. y' i = (\<Sum>j<k. D i j * x j)"
    using E unfolding exch_def by blast
  have x0: "\<forall>j. Suc c \<le> j \<longrightarrow> x j = 0" by (simp add: x_def u_def)
  have "(\<Sum>j<k. D i j * x j) = 0" if i: "i < Suc c" for i
  proof -
    have ik: "i < k" using i c by simp
    have "y' i = 0" using i z by (cases "i = c") (simp_all add: y'_def u_def v_def)
    then show ?thesis using D ik by simp
  qed
  then have "\<forall>j < Suc c. x j = 0" using L x0 unfolding lead_inj_def by blast
  then have "x c = 0" by simp
  then show False by (simp add: x_def u_def)
qed

lemma exch_cong:
  assumes "exch k c D M" and "\<forall>i < k. \<forall>j < k. M' i j = M i j"
  shows "exch k c D M'"
proof -
  have "(\<Sum>j<k. M' i j * w j) = (\<Sum>j<k. M i j * w j)" if "i < k" for i and w :: "nat \<Rightarrow> gf"
    by (rule sum.cong) (use assms(2) that in simp_all)
  then show ?thesis using assms(1) unfolding exch_def by simp
qed

subsection \<open>The row operations\<close>

definition mx :: "nat \<Rightarrow> byte list \<Rightarrow> nat \<Rightarrow> nat \<Rightarrow> gf" where
  "mx k m i j = G (m ! (i * k + j))"

lemma fold_apply_at:
  "distinct xs \<Longrightarrow> inj_on f (set xs) \<Longrightarrow>
     fold (\<lambda>i m. m[f i := g (m ! f i)]) xs e ! x =
       (if x \<in> f ` set xs \<and> x < length e then g (e ! x) else e ! x)"
proof (induction xs arbitrary: e)
  case Nil
  then show ?case by simp
next
  case (Cons a xs)
  have d: "distinct xs" "inj_on f (set xs)" "f a \<notin> f ` set xs"
    using Cons.prems by auto
  define e1 where "e1 = e[f a := g (e ! f a)]"
  have IH: "fold (\<lambda>i m. m[f i := g (m ! f i)]) xs e1 ! x =
       (if x \<in> f ` set xs \<and> x < length e then g (e1 ! x) else e1 ! x)"
    using Cons.IH[OF d(1,2), of e1] by (simp add: e1_def)
  have run: "fold (\<lambda>i m. m[f i := g (m ! f i)]) (a # xs) e =
      fold (\<lambda>i m. m[f i := g (m ! f i)]) xs e1"
    by (simp add: e1_def)
  show ?case
  proof (cases "x \<in> f ` set xs")
    case True
    then have "x \<noteq> f a" using d(3) by blast
    then have "e1 ! x = e ! x" by (simp add: e1_def)
    then show ?thesis unfolding run IH using True by simp
  next
    case False
    show ?thesis
    proof (cases "x = f a")
      case xa: True
      show ?thesis
      proof (cases "f a < length e")
        case True
        then have "e1 ! x = g (e ! x)" using xa by (simp add: e1_def)
        then show ?thesis unfolding run IH using False True xa by simp
      next
        case nl: False
        then have "e1 = e" by (simp add: e1_def list_update_beyond)
        then show ?thesis unfolding run IH using False nl xa by simp
      qed
    next
      case nx: False
      then have "e1 ! x = e ! x" by (simp add: e1_def)
      then show ?thesis unfolding run IH using False nx by simp
    qed
  qed
qed

lemma length_fold_apply_at [simp]:
  "length (fold (\<lambda>i m. m[f i := g i m]) xs e) = length e"
  by (induction xs arbitrary: e) simp_all

lemma scale_row_nth:
  assumes "length src = k * k" and "r < k" and "i < k" and "j < k"
  shows "length (scale_row src k r c) = k * k"
    and "scale_row src k r c ! (i * k + j) =
           (if i = r then mul c (src ! (i * k + j)) else src ! (i * k + j))"
proof -
  show "length (scale_row src k r c) = k * k"
    using assms(1) by (simp add: scale_row_def)
  have inj: "inj_on (\<lambda>i. r * k + i) (set [0..<k])" by (rule inj_onI) simp
  have lt: "i * k + j < length src" using row_index_less[OF assms(3,4)] assms(1) by simp
  have mem: "i * k + j \<in> (\<lambda>i. r * k + i) ` set [0..<k] \<longleftrightarrow> i = r"
  proof
    assume "i * k + j \<in> (\<lambda>i. r * k + i) ` set [0..<k]"
    then obtain j' where "j' \<in> set [0..<k]" and j2: "i * k + j = r * k + j'" by blast
    then have j': "j' < k" "i * k + j = r * k + j'" by simp_all
    then show "i = r" using row_index_eq[OF assms(4) j'(1), of i r] by simp
  next
    assume "i = r"
    then show "i * k + j \<in> (\<lambda>i. r * k + i) ` set [0..<k]" using assms(4) by simp
  qed
  show "scale_row src k r c ! (i * k + j) =
           (if i = r then mul c (src ! (i * k + j)) else src ! (i * k + j))"
    unfolding scale_row_def
    using fold_apply_at[of "[0..<k]" "\<lambda>i. r * k + i" "mul c" src "i * k + j", OF distinct_upt inj]
      mem lt by simp
qed

lemma to_int_k: "k \<le> 256 \<Longrightarrow> to_int k = int k"
  by (rule to_int_small) simp

lemma eliminate_row_nth:
  assumes k: "k \<le> 256" and len: "length src = k * k"
    and i: "i < k" and ic: "icol < k" and ne: "i \<noteq> icol" and r: "r < k" and j: "j < k"
  shows "length (eliminate_row src k icol i) = k * k"
    and "eliminate_row src k icol i ! (r * k + j) =
           (if r = i
            then (if j = icol then 0 else src ! (i * k + j)) XOR
                   mul (src ! (i * k + icol)) (src ! (icol * k + j))
            else src ! (r * k + j))"
proof -
  define c where "c = src ! (i * k + icol)"
  define src1 where "src1 = src[i * k + icol := 0]"
  define dst where "dst = drop (i * k) src1"
  define pr where "pr = drop (icol * k) src1"
  have l1: "length src1 = k * k" by (simp add: src1_def len)
  have ik: "i * k + k \<le> k * k"
  proof -
    have "i * k + k = Suc i * k" by simp
    also have "\<dots> \<le> k * k" using i by (metis Suc_leI mult_le_mono1)
    finally show ?thesis .
  qed
  have ick: "icol * k + k \<le> k * k"
  proof -
    have "icol * k + k = Suc icol * k" by simp
    also have "\<dots> \<le> k * k" using ic by (metis Suc_leI mult_le_mono1)
    finally show ?thesis .
  qed
  have ld: "length dst = k * k - i * k" by (simp add: dst_def l1)
  have il: "i * k \<le> length src1" using l1 ik by linarith
  have icl: "icol * k \<le> length src1" using l1 ick by linarith
  have nn: "0 \<le> int k" by simp
  have E: "eliminate_row src k icol i = take (i * k) src1 @ addmul dst pr c (int k)"
    by (simp add: eliminate_row_def Let_def c_def src1_def dst_def pr_def to_int_k[OF k])
  note A = addmul_nth[OF nn, of dst pr c]
  show "length (eliminate_row src k icol i) = k * k"
    unfolding E using A(1) ld l1 ik by simp
  have s1: "src1 ! (r' * k + j') = (if r' = i \<and> j' = icol then 0 else src ! (r' * k + j'))"
    if "r' < k" "j' < k" for r' j'
  proof -
    have a: "r' * k + j' < length src" using row_index_less[OF that] len by simp
    have e: "i * k + icol = r' * k + j' \<longleftrightarrow> r' = i \<and> j' = icol"
      using row_index_eq[OF ic that(2), of i r'] by auto
    show ?thesis
    proof (cases "r' = i \<and> j' = icol")
      case True
      then have "i * k + icol < length src" using a by simp
      then have "src1 ! (i * k + icol) = 0" unfolding src1_def by (rule nth_list_update_eq)
      then show ?thesis using True by simp
    next
      case False
      then have "i * k + icol \<noteq> r' * k + j'" using e by simp
      then have "src1 ! (r' * k + j') = src ! (r' * k + j')"
        unfolding src1_def by (rule nth_list_update_neq)
      then show ?thesis using False by auto
    qed
  qed
  have lt: "length (take (i * k) src1) = i * k" using l1 ik by simp
  show "eliminate_row src k icol i ! (r * k + j) =
           (if r = i
            then (if j = icol then 0 else src ! (i * k + j)) XOR
                   mul (src ! (i * k + icol)) (src ! (icol * k + j))
            else src ! (r * k + j))"
  proof -
    consider "r < i" | "r = i" | "i < r" by (meson nat_neq_iff)
    then show ?thesis
    proof cases
      case 1
      have "r * k + j < r * k + k" using j by simp
      also have "\<dots> = Suc r * k" by simp
      also have "\<dots> \<le> i * k" using 1 by (metis Suc_leI mult_le_mono1)
      finally have b: "r * k + j < i * k" .
      have "eliminate_row src k icol i ! (r * k + j) = src1 ! (r * k + j)"
        unfolding E using b lt by (simp add: nth_append)
      then show ?thesis using s1[OF r j] 1 by simp
    next
      case 2
      have b: "\<not> i * k + j < i * k" by simp
      have jl: "j < length dst" using ld ik j by simp
      have "eliminate_row src k icol i ! (i * k + j) = addmul dst pr c (int k) ! j"
        unfolding E using lt by (simp add: nth_append)
      also have "\<dots> = dst ! j XOR mul c (pr ! j)"
        using A(2)[of j] j jl by simp
      also have "dst ! j = src1 ! (i * k + j)"
        unfolding dst_def using il by (rule nth_drop)
      also have "pr ! j = src1 ! (icol * k + j)"
        unfolding pr_def using icl by (rule nth_drop)
      finally show ?thesis
        using 2 s1[OF i j] s1[OF ic j] ne by (simp add: c_def)
    next
      case 3
      have "i * k + k = Suc i * k" by simp
      also have "\<dots> \<le> r * k" using 3 by (metis Suc_leI mult_le_mono1)
      finally have b: "i * k + k \<le> r * k" .
      define y where "y = r * k + j - i * k"
      have y: "r * k + j = i * k + y" "k \<le> y" using b by (simp_all add: y_def)
      have rl: "r * k + j < k * k" using r j by (rule row_index_less)
      have yl: "y < length dst" using ld rl y(1) by simp
      have "eliminate_row src k icol i ! (r * k + j) = addmul dst pr c (int k) ! y"
        unfolding E y(1) using lt by (simp add: nth_append)
      also have "\<dots> = dst ! y" using A(2)[of y] y(2) by simp
      also have "\<dots> = src1 ! (i * k + y)"
        unfolding dst_def using il by (rule nth_drop)
      finally show ?thesis using s1[OF r j] 3 y(1) by simp
    qed
  qed
qed

lemma eliminate_rows_nth:
  assumes k: "k \<le> 256" and ic: "icol < k"
  shows "length src = k * k \<Longrightarrow> distinct rows \<Longrightarrow> set rows \<subseteq> {..<k} \<Longrightarrow>
     length (fold (\<lambda>i m. if i \<noteq> icol then eliminate_row m k icol i else m) rows src) = k * k \<and>
     (\<forall>r < k. \<forall>j < k.
        fold (\<lambda>i m. if i \<noteq> icol then eliminate_row m k icol i else m) rows src ! (r * k + j) =
          (if r \<in> set rows \<and> r \<noteq> icol
           then (if j = icol then 0 else src ! (r * k + j)) XOR
                  mul (src ! (r * k + icol)) (src ! (icol * k + j))
           else src ! (r * k + j)))"
proof (induction rows arbitrary: src)
  case Nil
  then show ?case by simp
next
  case (Cons a rows)
  define m1 where "m1 = (if a \<noteq> icol then eliminate_row src k icol a else src)"
  have a: "a < k" "a \<notin> set rows" "distinct rows" "set rows \<subseteq> {..<k}"
    using Cons.prems by auto
  have l1: "length m1 = k * k"
  proof (cases "a = icol")
    case True
    then show ?thesis by (simp add: m1_def Cons.prems(1))
  next
    case False
    have "ic' < k \<Longrightarrow> length (eliminate_row src k icol a) = k * k" for ic'
      by (rule eliminate_row_nth(1)[OF k Cons.prems(1) a(1) ic False, of ic' ic']) simp_all
    then show ?thesis using False ic by (simp add: m1_def)
  qed
  have e1: "m1 ! (r * k + j) =
      (if r = a \<and> a \<noteq> icol
       then (if j = icol then 0 else src ! (r * k + j)) XOR
              mul (src ! (r * k + icol)) (src ! (icol * k + j))
       else src ! (r * k + j))" if "r < k" "j < k" for r j
    using eliminate_row_nth(2)[OF k Cons.prems(1) a(1) ic _ that] by (auto simp: m1_def)
  note IH = Cons.IH[OF l1 a(3,4)]
  have run: "fold (\<lambda>i m. if i \<noteq> icol then eliminate_row m k icol i else m) (a # rows) src =
      fold (\<lambda>i m. if i \<noteq> icol then eliminate_row m k icol i else m) rows m1"
    by (simp add: m1_def)
  show ?case
    unfolding run
  proof (intro conjI allI impI)
    show "length (fold (\<lambda>i m. if i \<noteq> icol then eliminate_row m k icol i else m) rows m1) = k * k"
      using IH by blast
  next
    fix r j assume r: "r < k" and j: "j < k"
    have "fold (\<lambda>i m. if i \<noteq> icol then eliminate_row m k icol i else m) rows m1 ! (r * k + j) =
          (if r \<in> set rows \<and> r \<noteq> icol
           then (if j = icol then 0 else m1 ! (r * k + j)) XOR
                  mul (m1 ! (r * k + icol)) (m1 ! (icol * k + j))
           else m1 ! (r * k + j))"
      using IH r j by blast
    then show "fold (\<lambda>i m. if i \<noteq> icol then eliminate_row m k icol i else m) rows m1 ! (r * k + j) =
          (if r \<in> set (a # rows) \<and> r \<noteq> icol
           then (if j = icol then 0 else src ! (r * k + j)) XOR
                  mul (src ! (r * k + icol)) (src ! (icol * k + j))
           else src ! (r * k + j))"
      using e1[OF r j] e1[OF r ic] e1[OF ic j] a(2) by auto
  qed
qed

lemma eliminate_nth:
  assumes k: "k \<le> 256" and ic: "icol < k" and len: "length src = k * k"
    and r: "r < k" and j: "j < k"
  shows "length (eliminate src k icol) = k * k"
    and "eliminate src k icol ! (r * k + j) =
          (if r \<noteq> icol
           then (if j = icol then 0 else src ! (r * k + j)) XOR
                  mul (src ! (r * k + icol)) (src ! (icol * k + j))
           else src ! (r * k + j))"
proof -
  have s: "set [0..<k] \<subseteq> {..<k}" by auto
  note E = eliminate_rows_nth[OF k ic len distinct_upt s]
  show "length (eliminate src k icol) = k * k" using E by (simp add: eliminate_def)
  show "eliminate src k icol ! (r * k + j) =
          (if r \<noteq> icol
           then (if j = icol then 0 else src ! (r * k + j)) XOR
                  mul (src ! (r * k + icol)) (src ! (icol * k + j))
           else src ! (r * k + j))"
    using E r j by (simp add: eliminate_def)
qed

subsection \<open>A step of the loop with the pivot on the diagonal\<close>

lemma invert_step_diag:
  assumes k: "k \<le> 256" and col: "col < k" and lm: "length (mat s) = k * k"
    and lp: "length (ipiv s) = k" and np: "\<not> ipiv s ! col"
    and nz: "mat s ! (col * k + col) \<noteq> 0" and idr: "id_row s = replicate k 0"
  shows "\<exists>s'. invert_step k col s = Inr s' \<and> length (mat s') = k * k \<and>
     ipiv s' = (ipiv s)[col := True] \<and> indxr s' = (indxr s)[col := col] \<and>
     indxc s' = (indxc s)[col := col] \<and> id_row s' = replicate k 0 \<and>
     (\<forall>i < k. \<forall>j < k. mx k (mat s') i j = pivot_mx col (mx k (mat s)) i j)"
proof -
  define c where "c = mat s ! (col * k + col)"
  define M where "M = mx k (mat s)"
  define src2 where "src2 = (if c \<noteq> 1
       then scale_row ((mat s)[col * k + col := 1]) k col (GF_INVERSE ! unat c) else mat s)"
  define idr1 where "idr1 = (replicate k (0 :: byte))[col := 1]"
  define src3 where "src3 = (if take k (drop (col * k) src2) \<noteq> take k idr1
       then eliminate src2 k col else src2)"
  have ps: "pivot_search (ipiv s) col (mat s) = Inr ((col, col), (ipiv s)[col := True])"
    using np nz lp by (simp add: pivot_search_def Let_def)
  have id0: "idr1[col := 0] = replicate k 0"
    by (simp add: idr1_def replicate_update_same)
  have run: "invert_step k col s = Inr \<lparr>mat = src3, ipiv = (ipiv s)[col := True],
       indxr = (indxr s)[col := col], indxc = (indxc s)[col := col], id_row = replicate k 0\<rparr>"
    using nz unfolding invert_step_def ps src3_def src2_def idr1_def c_def
    by (simp add: Let_def idr replicate_update_same)
  have a: "M col col = G c" "G c \<noteq> 0" using nz by (simp_all add: M_def mx_def c_def)
  have l2: "length src2 = k * k"
  proof (cases "c = 1")
    case True
    then show ?thesis by (simp add: src2_def lm)
  next
    case False
    have "length ((mat s)[col * k + col := 1]) = k * k" by (simp add: lm)
    from scale_row_nth(1)[OF this col col col] show ?thesis using False by (simp add: src2_def)
  qed
  have P: "mx k src2 i j =
      (if i = col then (if j = col then inverse (G c) else inverse (G c) * M col j) else M i j)"
    if i: "i < k" and j: "j < k" for i j
  proof (cases "c = 1")
    case True
    then have "src2 = mat s" by (simp add: src2_def)
    moreover have "i = col \<Longrightarrow> j = col \<Longrightarrow> M i j = 1" using a True by simp
    ultimately show ?thesis using True by (auto simp: M_def)
  next
    case False
    define m1 where "m1 = (mat s)[col * k + col := 1]"
    have l1: "length m1 = k * k" by (simp add: m1_def lm)
    have cl: "col * k + col < length (mat s)" using row_index_less[OF col col] lm by simp
    have e1: "m1 ! (i * k + j) = (if i = col \<and> j = col then 1 else mat s ! (i * k + j))"
    proof (cases "i = col \<and> j = col")
      case True
      then show ?thesis using cl by (simp add: m1_def)
    next
      case False
      then have "col * k + col \<noteq> i * k + j" using row_index_eq[OF col j, of col i] by auto
      then have "m1 ! (i * k + j) = mat s ! (i * k + j)" by (simp add: m1_def)
      then show ?thesis using False by auto
    qed
    have "src2 ! (i * k + j) =
        (if i = col then mul (GF_INVERSE ! unat c) (m1 ! (i * k + j)) else m1 ! (i * k + j))"
      using scale_row_nth(2)[OF l1 col i j] False by (simp add: src2_def m1_def)
    then show ?thesis unfolding e1 by (auto simp: mx_def M_def)
  qed
  have row: "take k (drop (col * k) src2) = take k idr1 \<longleftrightarrow>
      (\<forall>j < k. src2 ! (col * k + j) = (if j = col then 1 else 0))"
  proof -
    have "col * k + k = Suc col * k" by simp
    also have "\<dots> \<le> k * k" using col by (metis Suc_leI mult_le_mono1)
    finally have ck: "col * k + k \<le> length src2" using l2 by simp
    then have cl: "col * k \<le> length src2" by linarith
    have la: "length (take k (drop (col * k) src2)) = k" using ck by simp
    have lb: "length (take k idr1) = k" by (simp add: idr1_def)
    have na: "take k (drop (col * k) src2) ! j = src2 ! (col * k + j)" if "j < k" for j
      using that nth_drop[OF cl, of j] by simp
    have nb: "take k idr1 ! j = (if j = col then 1 else 0)" if "j < k" for j
      using that col by (simp add: idr1_def nth_list_update)
    show ?thesis
      unfolding list_eq_iff_nth_eq la lb using na nb by simp
  qed
  have l3: "length src3 = k * k"
    using l2 eliminate_nth(1)[OF k col l2 col col] by (simp add: src3_def)
  have Q: "mx k src3 i j = pivot_mx col M i j" if i: "i < k" and j: "j < k" for i j
  proof (cases "take k (drop (col * k) src2) = take k idr1")
    case True
    then have s3: "src3 = src2" by (simp add: src3_def)
    have pr: "mx k src2 col j' = (if j' = col then 1 else 0)" if "j' < k" for j'
      using True that unfolding row by (simp add: mx_def)
    have i1: "inverse (G c) = 1" using pr[OF col] P[OF col col] by simp
    have z: "inverse (G c) * M col j' = 0" if "j' < k" "j' \<noteq> col" for j'
      using pr[OF that(1)] P[OF col that(1)] that(2) by simp
    show ?thesis
      unfolding s3 P[OF i j] pivot_mx_def a(1)
      using i1 z[OF j] by simp
  next
    case False
    then have s3: "src3 = eliminate src2 k col" by (simp add: src3_def)
    have "src3 ! (i * k + j) =
          (if i \<noteq> col
           then (if j = col then 0 else src2 ! (i * k + j)) XOR
                  mul (src2 ! (i * k + col)) (src2 ! (col * k + j))
           else src2 ! (i * k + j))"
      unfolding s3 by (rule eliminate_nth(2)[OF k col l2 i j])
    then have "mx k src3 i j =
          (if i \<noteq> col
           then (if j = col then 0 else mx k src2 i j) + mx k src2 i col * mx k src2 col j
           else mx k src2 i j)"
      by (simp add: mx_def)
    then show ?thesis
      unfolding P[OF i j] P[OF i col] P[OF col j] pivot_mx_def a(1) by simp
  qed
  show ?thesis
    using run l3 Q unfolding M_def by simp
qed

subsection \<open>The loop over the columns\<close>

lemma invert_cols_append:
  "invert_cols k (xs @ ys) s =
     (case invert_cols k xs s of Inl e \<Rightarrow> Inl e | Inr s' \<Rightarrow> invert_cols k ys s')"
  by (induction xs arbitrary: s) (simp_all split: sum.splits)

lemma invert_cols_diag:
  assumes k: "k \<le> 256" and len: "length src = k * k"
    and L: "\<forall>c < k. lead_inj k (mx k src) (Suc c)"
  shows "c \<le> k \<Longrightarrow>
     \<exists>s. invert_cols k [0..<c]
            \<lparr>mat = src, ipiv = replicate k False, indxr = replicate k 0,
             indxc = replicate k 0, id_row = replicate k 0\<rparr> = Inr s \<and>
         length (mat s) = k * k \<and> length (ipiv s) = k \<and> (\<forall>i < k. ipiv s ! i \<longleftrightarrow> i < c) \<and>
         length (indxr s) = k \<and> length (indxc s) = k \<and>
         (\<forall>i < k. indxr s ! i = indxc s ! i) \<and> id_row s = replicate k 0 \<and>
         exch k c (mx k src) (mx k (mat s))"
proof (induction c)
  case 0
  then show ?case using len by (simp add: exch_0)
next
  case (Suc c)
  define init where "init = \<lparr>mat = src, ipiv = replicate k False, indxr = replicate k 0,
             indxc = replicate k 0, id_row = replicate k (0 :: byte)\<rparr>"
  have ck: "c < k" using Suc.prems by simp
  from Suc.IH ck obtain s where s: "invert_cols k [0..<c] init = Inr s"
    and lm: "length (mat s) = k * k" and lp: "length (ipiv s) = k"
    and ip: "\<forall>i < k. ipiv s ! i \<longleftrightarrow> i < c"
    and lr: "length (indxr s) = k" and lc: "length (indxc s) = k"
    and rc: "\<forall>i < k. indxr s ! i = indxc s ! i" and idr: "id_row s = replicate k 0"
    and E: "exch k c (mx k src) (mx k (mat s))"
    unfolding init_def by auto
  have Lc: "lead_inj k (mx k src) (Suc c)" using L ck by blast
  have "mx k (mat s) c c \<noteq> 0" by (rule pivot_nonzero[OF E ck Lc])
  then have nz: "mat s ! (c * k + c) \<noteq> 0" by (simp add: mx_def)
  have np: "\<not> ipiv s ! c" using ip ck by simp
  from invert_step_diag[OF k ck lm lp np nz idr] obtain s'
    where s': "invert_step k c s = Inr s'" and lm': "length (mat s') = k * k"
      and ip': "ipiv s' = (ipiv s)[c := True]" and ir': "indxr s' = (indxr s)[c := c]"
      and ic': "indxc s' = (indxc s)[c := c]" and idr': "id_row s' = replicate k 0"
      and M': "\<forall>i < k. \<forall>j < k. mx k (mat s') i j = pivot_mx c (mx k (mat s)) i j"
    by blast
  have run: "invert_cols k [0..<Suc c] init = Inr s'"
    using s s' by (simp add: invert_cols_append)
  have E': "exch k (Suc c) (mx k src) (mx k (mat s'))"
    by (rule exch_cong[OF exch_Suc[OF E ck \<open>mx k (mat s) c c \<noteq> 0\<close>] M'])
  have p1: "\<forall>i < k. ipiv s' ! i \<longleftrightarrow> i < Suc c"
    using ip lp unfolding ip' by (auto simp: nth_list_update less_Suc_eq)
  have p2: "\<forall>i < k. indxr s' ! i = indxc s' ! i"
  proof (intro allI impI)
    fix i assume i: "i < k"
    have a: "c < length (indxr s)" "c < length (indxc s)" using ck lr lc by simp_all
    have "indxr s ! i = indxc s ! i" using rc i by blast
    then show "indxr s' ! i = indxc s' ! i"
      unfolding ir' ic' using a by (simp add: nth_list_update)
  qed
  show ?case
    unfolding init_def[symmetric] run
    using lm' lp lr lc idr' E' p1 p2 by (simp add: ip' ir' ic')
qed

lemma fold_skip: "\<forall>i \<in> set xs. \<not> P i \<Longrightarrow> fold (\<lambda>i m. if P i then f i m else m) xs m = m"
  by (induction xs) simp_all

lemma unscramble_same:
  "\<forall>i < k. indxr s ! i = indxc s ! i \<Longrightarrow> unscramble k s = mat s"
  unfolding unscramble_def by (rule fold_skip) simp

text \<open>
  Where every leading block of the matrix is injective, \<open>invert_matrix\<close> finds each
  pivot on the diagonal and returns a left inverse.
\<close>

lemma invert_matrix_spec:
  assumes k: "k \<le> 256" and len: "length src = k * k"
    and L: "\<forall>c < k. lead_inj k (mx k src) (Suc c)"
  shows "\<exists>m. invert_matrix src k = Inr m \<and> length m = k * k \<and>
     (\<forall>x. \<forall>i < k. (\<Sum>j<k. mx k m i j * (\<Sum>l<k. mx k src j l * x l)) = x i)"
proof -
  from invert_cols_diag[OF k len L order_refl] obtain s
    where s: "invert_cols k [0..<k]
            \<lparr>mat = src, ipiv = replicate k False, indxr = replicate k 0,
             indxc = replicate k 0, id_row = replicate k 0\<rparr> = Inr s"
      and lm: "length (mat s) = k * k"
      and rc: "\<forall>i < k. indxr s ! i = indxc s ! i"
      and E: "exch k k (mx k src) (mx k (mat s))"
    by blast
  have run: "invert_matrix src k = Inr (mat s)"
    using s unscramble_same[OF rc] by (simp add: invert_matrix_def)
  have "(\<Sum>j<k. mx k (mat s) i j * (\<Sum>l<k. mx k src j l * x l)) = x i" if i: "i < k" for x i
  proof -
    define y where "y = (\<lambda>i. \<Sum>l<k. mx k src i l * x l)"
    have "\<forall>i < k. y i = (\<Sum>j<k. mx k src i j * x j)" by (simp add: y_def)
    then have "\<forall>i < k. (if i < k then x i else y i) =
                      (\<Sum>j<k. mx k (mat s) i j * (if j < k then y j else x j))"
      using E unfolding exch_def by blast
    then have "x i = (\<Sum>j<k. mx k (mat s) i j * (if j < k then y j else x j))"
      using i by auto
    also have "\<dots> = (\<Sum>j<k. mx k (mat s) i j * y j)"
      by (rule sum.cong) simp_all
    finally show ?thesis by (simp add: y_def)
  qed
  then show ?thesis using run lm by blast
qed

section \<open>The round trip\<close>

subsection \<open>Any \<open>k\<close> rows of the encoding matrix are independent\<close>

lemma vandermonde_rows:
  assumes E: "\<forall>col < k. E col = (\<Sum>i<k. x ^ i * T i col)"
  shows "(\<Sum>col<k. E col * v col) = (\<Sum>i<k. (\<Sum>col<k. T i col * v col) * (x :: gf) ^ i)"
proof -
  have "(\<Sum>col<k. E col * v col) = (\<Sum>col<k. \<Sum>i<k. x ^ i * T i col * v col)"
    by (rule sum.cong) (simp_all add: E sum_distrib_right)
  also have "\<dots> = (\<Sum>i<k. \<Sum>col<k. x ^ i * T i col * v col)"
    by (rule sum.swap)
  also have "\<dots> = (\<Sum>i<k. (\<Sum>col<k. T i col * v col) * x ^ i)"
  proof (rule sum.cong)
    fix i
    have "(\<Sum>col<k. x ^ i * T i col * v col) = (\<Sum>col<k. x ^ i * (T i col * v col))"
      by (simp add: mult.assoc)
    also have "\<dots> = x ^ i * (\<Sum>col<k. T i col * v col)"
      by (simp only: sum_distrib_left)
    finally show "(\<Sum>col<k. x ^ i * T i col * v col) = (\<Sum>col<k. T i col * v col) * x ^ i"
      by (simp only: mult.commute)
  qed simp
  finally show ?thesis .
qed

lemma lead_inj_rows:
  assumes kn: "k \<le> n" "n \<le> 256"
    and E: "\<forall>r < n. \<forall>col < k. E r col = (\<Sum>i<k. pt r ^ i * T i col)"
    and top: "\<forall>r < k. \<forall>col < k. E r col = (if r = col then 1 else 0)"
    and sg: "\<forall>j < k. \<sigma> j < n \<and> (\<sigma> j = j \<or> k \<le> \<sigma> j)"
    and inj: "\<forall>j < k. \<forall>j' < k. \<sigma> j = \<sigma> j' \<longrightarrow> j = j'"
    and D: "\<forall>j < k. \<forall>col < k. D j col = E (\<sigma> j) col"
    and c: "c \<le> k"
  shows "lead_inj k D c"
  unfolding lead_inj_def
proof (intro allI impI)
  fix x :: "nat \<Rightarrow> gf" and j
  assume H: "(\<forall>j. c \<le> j \<longrightarrow> x j = 0) \<and> (\<forall>i < c. (\<Sum>j<k. D i j * x j) = 0)" and j: "j < c"
  define \<tau> where "\<tau> = (\<lambda>j. if j < c then \<sigma> j else j)"
  define w where "w = (\<lambda>i. \<Sum>col<k. T i col * x col)"
  have tn: "\<tau> r < n" if "r < k" for r
    using sg that kn(1) by (simp add: \<tau>_def)
  have row: "(\<Sum>col<k. E r col * x col) = (\<Sum>i<k. w i * pt r ^ i)" if "r < n" for r
    unfolding w_def by (rule vandermonde_rows) (use E that in simp)
  have unit: "(\<Sum>col<k. E r col * x col) = x r" if r: "r < k" for r
  proof -
    have "(\<Sum>col<k. E r col * x col) = (\<Sum>col<k. if col = r then x col else 0)"
      by (rule sum.cong) (use top r in auto)
    then show ?thesis using r by simp
  qed
  have zero: "(\<Sum>i<k. w i * pt (\<tau> r) ^ i) = 0" if r: "r < k" for r
  proof (cases "r < c")
    case True
    have "(\<Sum>col<k. E (\<sigma> r) col * x col) = (\<Sum>col<k. D r col * x col)"
      by (rule sum.cong) (use D r in simp_all)
    also have "\<dots> = 0" using H True by blast
    finally show ?thesis using row[OF tn[OF r]] True by (simp add: \<tau>_def)
  next
    case False
    then have "x r = 0" using H by simp
    then have "(\<Sum>col<k. E r col * x col) = 0" using unit[OF r] by simp
    then show ?thesis using row[OF tn[OF r]] False by (simp add: \<tau>_def)
  qed
  have tinj: "inj_on \<tau> {..<k}"
  proof (rule inj_onI)
    fix a b assume a: "a \<in> {..<k}" and b: "b \<in> {..<k}" and e: "\<tau> a = \<tau> b"
    have one: "False" if "a' < c" "\<not> b' < c" "a' < k" "b' < k" "\<sigma> a' = b'" for a' b'
    proof -
      have "\<sigma> a' = a' \<or> k \<le> \<sigma> a'" using sg that(3) by blast
      then show False using that by auto
    qed
    show "a = b"
    proof (cases "a < c")
      case ac: True
      show ?thesis
      proof (cases "b < c")
        case True
        then have "\<sigma> a = \<sigma> b" using e ac by (simp add: \<tau>_def)
        moreover have "a < k" "b < k" using a b by simp_all
        ultimately show ?thesis using inj by blast
      next
        case False
        have "\<sigma> a = b" using e ac False by (simp add: \<tau>_def)
        moreover have "a < k" "b < k" using a b by simp_all
        ultimately show ?thesis using one[OF ac False] by blast
      qed
    next
      case nac: False
      show ?thesis
      proof (cases "b < c")
        case True
        have "\<sigma> b = a" using e nac True by (simp add: \<tau>_def)
        moreover have "a < k" "b < k" using a b by simp_all
        ultimately show ?thesis using one[OF True nac] by blast
      next
        case False
        then show ?thesis using e nac by (simp add: \<tau>_def)
      qed
    qed
  qed
  have pinj: "inj_on (\<lambda>r. pt (\<tau> r)) {..<k}"
  proof (rule inj_onI)
    fix a b assume a: "a \<in> {..<k}" and b: "b \<in> {..<k}" and e: "pt (\<tau> a) = pt (\<tau> b)"
    have "\<tau> a \<in> {..<256}" "\<tau> b \<in> {..<256}" using tn[of a] tn[of b] a b kn(2) by simp_all
    then have "\<tau> a = \<tau> b" using e pt_inj by (auto dest: inj_onD)
    then show "a = b" using tinj a b by (auto dest: inj_onD)
  qed
  have "\<forall>r < k. (\<Sum>i<k. w i * pt (\<tau> r) ^ i) = 0" using zero by blast
  from roots_zero_fun[OF pinj this] have w0: "\<forall>i < k. w i = 0" .
  have jk: "j < k" using j c by simp
  have "x j = (\<Sum>col<k. E j col * x col)" using unit[OF jk] by simp
  also have "\<dots> = (\<Sum>i<k. w i * pt j ^ i)"
    using row[of j] jk kn(1) by simp
  also have "\<dots> = 0" using w0 by simp
  finally show "x j = 0" .
qed

subsection \<open>The selection loop on valid shares\<close>

lemma select_loop_valid:
  assumes cfg: "fec_code_new avail k n = Inr cfg"
    and srt: "sorted_wrt (<) (map fst shares)"
    and km: "k \<le> length shares"
    and ok: "\<forall>p \<in> set shares. fst p < n"
  shows "\<exists>s. select_loop cfg shares share_size [0..<k] (select_init k) = (None, s) \<and>
     sel_inv cfg shares share_size (code_k cfg) s"
proof -
  note F = fec_code_new_fields[OF cfg]
  from select_loop_full[OF cfg srt km, of share_size] obtain r s
    where run: "select_loop cfg shares share_size [0..<k] (select_init k) = (r, s)"
      and res: "if \<forall>c \<in> set (spec_select (map fst shares) [0..<k]). c < n
      then r = None \<and> sel_inv cfg shares share_size k s
      else r = Some InvalidIndex \<and>
           (\<exists>j < k. sel_inv cfg shares share_size j s \<and> fst (shares ! b_iter s) \<noteq> j \<and>
              n \<le> fst (shares ! (length shares - 1 - e_iter s)) \<and>
              take j (indexes s) = take j (spec_select (map fst shares) [0..<k]))"
    by blast
  have pos: "0 < length shares" using km F(3) by (rule less_le_trans[rotated])
  have "\<not> n \<le> fst (shares ! (length shares - 1 - e_iter s))"
  proof -
    have "length shares - 1 - e_iter s < length shares" using pos by simp
    then have "shares ! (length shares - 1 - e_iter s) \<in> set shares" by (rule nth_mem)
    then show ?thesis using ok by (simp add: not_le)
  qed
  with res have "r = None \<and> sel_inv cfg shares share_size k s"
    by (auto split: if_splits)
  then show ?thesis using run F(1) by simp
qed

lemma sel_inv_matrix:
  assumes "sel_inv cfg shares share_size (code_k cfg) s"
  shows "length (m_dec s) = code_k cfg * code_k cfg"
    and "length (sharesv s) = code_k cfg"
    and "\<forall>j < code_k cfg. \<forall>col < code_k cfg.
        m_dec s ! (j * code_k cfg + col) =
          (if indexes s ! j < code_k cfg then (if col = j then 1 else 0)
           else enc_matrix cfg ! (indexes s ! j * code_k cfg + col))"
    and "emitted s =
       map (\<lambda>j. \<lparr>em_pos = j, em_total = code_k cfg, em_data = take share_size (sharesv s ! j),
                  em_len = share_size\<rparr>)
         (filter (\<lambda>j. indexes s ! j < code_k cfg) [0..<code_k cfg])"
proof -
  note I = assms[unfolded sel_inv_def]
  show "length (m_dec s) = code_k cfg * code_k cfg" using I by (elim conjE)
  show "length (sharesv s) = code_k cfg" using I by (elim conjE)
  show "\<forall>j < code_k cfg. \<forall>col < code_k cfg.
        m_dec s ! (j * code_k cfg + col) =
          (if indexes s ! j < code_k cfg then (if col = j then 1 else 0)
           else enc_matrix cfg ! (indexes s ! j * code_k cfg + col))" using I by (elim conjE)
  show "emitted s =
       map (\<lambda>j. \<lparr>em_pos = j, em_total = code_k cfg, em_data = take share_size (sharesv s ! j),
                  em_len = share_size\<rparr>)
         (filter (\<lambda>j. indexes s ! j < code_k cfg) [0..<code_k cfg])" using I by (elim conjE)
qed

lemma recover_block_spec:
  assumes "bs < 2 ^ 31" and "0 < bs"
  shows "\<exists>blk. recover_block k bs m sv i = Inr blk \<and> length blk = bs \<and>
     (\<forall>x < bs. G (blk ! x) = (\<Sum>col<k. G (m ! (i * k + col)) * G (sv ! col ! x)))"
proof -
  have z: "length (replicate bs (0 :: byte)) = bs" by simp
  note A = fold_addmul[OF assms(1) z, of "\<lambda>col. sv ! col" "\<lambda>col. m ! (i * k + col)" k]
  have "recover_block k bs m sv i =
      Inr (fold (\<lambda>col buf. addmul buf (sv ! col) (m ! (i * k + col)) (to_int bs))
             [0..<k] (replicate bs 0))"
    unfolding recover_block_def by (rule fold_err_addmul_vec) (use assms(2) in simp)
  then show ?thesis using A by simp
qed

subsection \<open>Putting the blocks back\<close>

lemma concat_blocks:
  "concat (map (\<lambda>p. take bs (drop (p * bs) input)) [0..<k]) = take (k * bs) input"
proof (induction k)
  case 0
  then show ?case by simp
next
  case (Suc k)
  have "take (k * bs + bs) input = take (k * bs) input @ take bs (drop (k * bs) input)"
    by (rule take_add)
  then show ?case using Suc by (simp add: add.commute)
qed

lemma distinct_map_sort_key:
  "distinct (map f (sort_key f xs)) = distinct (map f xs)"
  by (induction xs) (simp_all add: distinct_insort_key)

lemma reassemble:
  assumes d: "distinct (map em_pos tr)" and s: "set (map em_pos tr) = {..<k}"
    and b: "\<forall>e \<in> set tr. em_data e = take bs (drop (em_pos e * bs) input)"
    and len: "length input = k * bs"
  shows "concat (map em_data (sort_key em_pos tr)) = input"
proof -
  define ys where "ys = sort_key em_pos tr"
  have "sorted (map em_pos ys)" by (simp add: ys_def)
  moreover have "distinct (map em_pos ys)" using d by (simp add: ys_def distinct_map_sort_key)
  moreover have "set (map em_pos ys) = set [0..<k]" using s by (auto simp: ys_def)
  ultimately have p: "map em_pos ys = [0..<k]"
    by (intro sorted_distinct_set_unique) simp_all
  have "map em_data ys = map (\<lambda>e. take bs (drop (em_pos e * bs) input)) ys"
    using b by (simp add: ys_def)
  also have "\<dots> = map (\<lambda>p. take bs (drop (p * bs) input)) (map em_pos ys)"
    by (simp add: comp_def)
  finally have "concat (map em_data ys) = take (k * bs) input"
    unfolding p by (simp add: concat_blocks)
  then show ?thesis using len by (simp add: ys_def)
qed

subsection \<open>Encoding, then decoding any \<open>k\<close> shares\<close>

lemma round_trip_blocks:
  assumes cfg: "fec_code_new avail k n = Inr cfg"
    and len: "length input = k * bs" and pos: "0 < bs" and bs: "bs < 2 ^ 31"
    and enc: "encode cfg input = (es, None)"
    and srt: "sorted_wrt (<) S" and sub: "set S \<subseteq> {..<n}" and lS: "length S = k"
  shows "\<exists>tr. decode cfg (map (\<lambda>i. (i, em_data (es ! i))) S) bs = (tr, None) \<and>
      length tr = k \<and> distinct (map em_pos tr) \<and> set (map em_pos tr) = {..<k} \<and>
      (\<forall>e \<in> set tr. em_len e = bs \<and> em_data e = take bs (drop (em_pos e * bs) input))"
proof -
  note F = fec_code_new_fields[OF cfg]
  have k256: "k \<le> 256" using F(4,5) by simp
  from encode_shares[OF cfg len pos bs] enc
  have P: "\<forall>r < n. em_pos (es ! r) = r \<and> em_len (es ! r) = bs \<and> length (em_data (es ! r)) = bs \<and>
        (r < k \<longrightarrow> em_data (es ! r) = take bs (drop (r * bs) input)) \<and>
        (\<forall>x < bs. G (em_data (es ! r) ! x) =
           (\<Sum>j<k. G (enc_matrix cfg ! (r * k + j)) * G (input ! (j * bs + x))))"
    by auto
  define shares where "shares = map (\<lambda>i. (i, em_data (es ! i))) S"
  have fs: "map fst shares = S" by (simp add: shares_def comp_def)
  have srt': "sorted_wrt (<) (map fst shares)" unfolding fs by (rule srt)
  have ls: "length shares = k" by (simp add: shares_def lS)
  have km: "k \<le> length shares" by (simp add: ls)
  have ok: "\<forall>p \<in> set shares. fst p < n" using sub by (auto simp: shares_def)
  from select_loop_valid[OF cfg srt' km ok, of bs] obtain s
    where run: "select_loop cfg shares bs [0..<k] (select_init k) = (None, s)"
      and inv: "sel_inv cfg shares bs (code_k cfg) s"
    by blast
  note X = sel_inv_indexes[OF inv, unfolded F(1) F(2) ls]
  note Y = sel_inv_matrix[OF inv, unfolded F(1)]
  define \<sigma> where "\<sigma> = (\<lambda>j. indexes s ! j)"
  have sg: "\<forall>j < k. \<sigma> j < n \<and> (\<sigma> j = j \<or> k \<le> \<sigma> j)"
    using X(3) by (simp add: \<sigma>_def)
  have own: "\<sigma> j = j" if "j < k" "\<sigma> j < k" for j
    using sg that by auto
  have inj: "\<forall>j < k. \<forall>j' < k. \<sigma> j = \<sigma> j' \<longrightarrow> j = j'"
    using X(2,4) by (simp add: \<sigma>_def nth_eq_iff_index_eq)
  have sv: "sharesv s ! j = em_data (es ! \<sigma> j)" if "j < k" for j
  proof -
    have "(\<sigma> j, sharesv s ! j) \<in> set shares" using X(3) that by (simp add: \<sigma>_def)
    then show ?thesis by (auto simp: shares_def)
  qed
  from enc_matrix_entries[OF cfg] obtain T
    where T: "\<forall>r < n. \<forall>col < k.
           G (enc_matrix cfg ! (r * k + col)) = (\<Sum>i<k. pt r ^ i * T i col)"
    by blast
  define E where "E = (\<lambda>r col. G (enc_matrix cfg ! (r * k + col)))"
  have E1: "\<forall>r < n. \<forall>col < k. E r col = (\<Sum>i<k. pt r ^ i * T i col)"
    using T by (simp add: E_def)
  have E2: "\<forall>r < k. \<forall>col < k. E r col = (if r = col then 1 else 0)"
    using enc_matrix_top[OF cfg] by (simp add: E_def)
  have D: "\<forall>j < k. \<forall>col < k. mx k (m_dec s) j col = E (\<sigma> j) col"
  proof (intro allI impI)
    fix j col assume j: "j < k" and col: "col < k"
    have m: "m_dec s ! (j * k + col) =
          (if \<sigma> j < k then (if col = j then 1 else 0)
           else enc_matrix cfg ! (\<sigma> j * k + col))"
      using Y(3) j col unfolding \<sigma>_def by blast
    show "mx k (m_dec s) j col = E (\<sigma> j) col"
    proof (cases "\<sigma> j < k")
      case True
      then have "\<sigma> j = j" using own j by simp
      then show ?thesis using m True E2 j col by (auto simp: mx_def)
    next
      case False
      then show ?thesis using m by (simp add: mx_def E_def)
    qed
  qed
  have L: "\<forall>c < k. lead_inj k (mx k (m_dec s)) (Suc c)"
  proof (intro allI impI)
    fix c assume "c < k"
    then have c: "Suc c \<le> k" by simp
    show "lead_inj k (mx k (m_dec s)) (Suc c)"
      by (rule lead_inj_rows[OF F(4,5) E1 E2 sg inj D c])
  qed
  from invert_matrix_spec[OF k256 Y(1) L] obtain m
    where m: "invert_matrix (m_dec s) k = Inr m"
      and minv: "\<forall>x. \<forall>i < k. (\<Sum>j<k. mx k m i j * (\<Sum>l<k. mx k (m_dec s) j l * x l)) = x i"
    by blast
  define rb where "rb = (\<lambda>i. \<lparr>em_pos = i, em_total = k, em_data = take bs (drop (i * bs) input),
                em_len = bs\<rparr>)"
  define tr where "tr = emitted s @ map rb (filter (\<lambda>i. \<not> indexes s ! i < k) [0..<k])"
  have blk: "length (take bs (drop (i * bs) input)) = bs"
    and blkn: "\<forall>x < bs. take bs (drop (i * bs) input) ! x = input ! (i * bs + x)"
    if i: "i < k" for i
  proof -
    have "i * bs + bs = Suc i * bs" by simp
    also have "\<dots> \<le> k * bs" using i by (metis Suc_leI mult_le_mono1)
    finally have a: "i * bs + bs \<le> length input" using len by simp
    then show "length (take bs (drop (i * bs) input)) = bs" by simp
    have "i * bs \<le> length input" using a by linarith
    then show "\<forall>x < bs. take bs (drop (i * bs) input) ! x = input ! (i * bs + x)"
      by (simp add: nth_drop)
  qed
  have rec: "recover_block k bs m (sharesv s) i = Inr (take bs (drop (i * bs) input))"
    if i: "i < k" for i
  proof -
    from recover_block_spec[OF bs pos, of k m "sharesv s" i] obtain b
      where b: "recover_block k bs m (sharesv s) i = Inr b" and lb: "length b = bs"
        and R: "\<forall>x < bs. G (b ! x) = (\<Sum>col<k. G (m ! (i * k + col)) * G (sharesv s ! col ! x))"
      by blast
    have "b = take bs (drop (i * bs) input)"
  proof (rule nth_equalityI)
    show "length b = length (take bs (drop (i * bs) input))"
      using lb blk[OF i] by simp
    fix x assume "x < length b"
    then have x: "x < bs" using lb by simp
    define X where "X = (\<lambda>l. G (input ! (l * bs + x)))"
    have "G (b ! x) =
        (\<Sum>col<k. G (m ! (i * k + col)) * G (sharesv s ! col ! x))"
      using R x by blast
    also have "\<dots> = (\<Sum>col<k. mx k m i col * (\<Sum>l<k. mx k (m_dec s) col l * X l))"
    proof (rule sum.cong)
      fix col assume "col \<in> {..<k}"
      then have col: "col < k" by simp
      have sn: "\<sigma> col < n" using sg col by blast
      have "G (sharesv s ! col ! x) = G (em_data (es ! \<sigma> col) ! x)"
        using sv[OF col] by simp
      also have "\<dots> = (\<Sum>l<k. E (\<sigma> col) l * X l)"
        using P sn x unfolding E_def X_def by blast
      also have "\<dots> = (\<Sum>l<k. mx k (m_dec s) col l * X l)"
        by (rule sum.cong) (use D col in simp_all)
      finally show "G (m ! (i * k + col)) * G (sharesv s ! col ! x) =
          mx k m i col * (\<Sum>l<k. mx k (m_dec s) col l * X l)"
        by (simp add: mx_def)
    qed simp
    also have "\<dots> = X i" using minv i by blast
    finally have "b ! x = input ! (i * bs + x)"
      by (simp add: X_def)
    then show "b ! x = take bs (drop (i * bs) input) ! x"
      using blkn[OF i] x by simp
  qed
    then show ?thesis using b by simp
  qed
  have prim: "take bs (sharesv s ! j) = take bs (drop (j * bs) input)"
    if j: "j < k" "\<sigma> j < k" for j
  proof -
    have "\<sigma> j = j" using own j by simp
    then have "sharesv s ! j = em_data (es ! j)" using sv[OF j(1)] by simp
    also have "\<dots> = take bs (drop (j * bs) input)" using P j(1) F(4) by simp
    finally show ?thesis by simp
  qed
  have em: "emitted s =
       map (\<lambda>j. \<lparr>em_pos = j, em_total = k, em_data = take bs (sharesv s ! j), em_len = bs\<rparr>)
         (filter (\<lambda>j. \<sigma> j < k) [0..<k])"
    using Y(4) by (simp add: \<sigma>_def)
  have "emit_loop (\<lambda>i. case recover_block k bs m (sharesv s) i of
                        Inl e \<Rightarrow> Inl e
                      | Inr buf \<Rightarrow> Inr \<lparr>em_pos = i, em_total = k, em_data = buf, em_len = bs\<rparr>)
       (filter (\<lambda>i. indexes s ! i \<ge> k) [0..<k]) =
      (map rb (filter (\<lambda>i. indexes s ! i \<ge> k) [0..<k]), None)"
    by (rule emit_loop_ok) (simp add: rec rb_def)
  then have rc: "recover k bs m s = (map rb (filter (\<lambda>i. \<not> indexes s ! i < k) [0..<k]), None)"
    using X(2) by (simp add: recover_def not_less)
  have dec: "decode cfg shares bs = (tr, None)"
    using run m km rc by (simp add: decode_def F(1) tr_def)
  have ps: "map em_pos tr =
      filter (\<lambda>i. \<sigma> i < k) [0..<k] @ filter (\<lambda>i. \<not> \<sigma> i < k) [0..<k]"
    unfolding tr_def em by (simp add: comp_def rb_def \<sigma>_def)
  have p1: "distinct (map em_pos tr)" unfolding ps by (rule filter_split_distinct)
  have p2: "set (map em_pos tr) = {..<k}" unfolding ps by (rule filter_split_set)
  have "length (map em_pos tr) = k"
    unfolding ps using sum_length_filter_compl[of "\<lambda>i. \<sigma> i < k" "[0..<k]"] by simp
  then have p3: "length tr = k" by simp
  have p4: "\<forall>e \<in> set tr. em_len e = bs \<and> em_data e = take bs (drop (em_pos e * bs) input)"
  proof
    fix e assume "e \<in> set tr"
    then consider "e \<in> set (emitted s)"
      | "e \<in> set (map rb (filter (\<lambda>i. \<not> indexes s ! i < k) [0..<k]))"
      by (auto simp: tr_def)
    then show "em_len e = bs \<and> em_data e = take bs (drop (em_pos e * bs) input)"
    proof cases
      case 1
      then obtain j where "j < k" "\<sigma> j < k"
        "e = \<lparr>em_pos = j, em_total = k, em_data = take bs (sharesv s ! j), em_len = bs\<rparr>"
        unfolding em by auto
      then show ?thesis using prim by simp
    next
      case 2
      then show ?thesis by (auto simp: rb_def)
    qed
  qed
  show ?thesis
    using dec p1 p2 p3 p4 unfolding shares_def by blast
qed

text \<open>
  The round trip, for block sizes from 1 to \<open>2\<^sup>3\<^sup>1 - 1\<close>. For every \<open>k\<close> and \<open>n\<close> with
  \<open>1 \<le> k \<le> n \<le> 256\<close> for which the allocator grants the matrix, the constructor
  succeeds; for every input of \<open>k\<close> blocks of \<open>bs\<close> bytes \<open>encode\<close> emits \<open>n\<close> shares
  and ends normally; and for every choice \<open>S\<close> of \<open>k\<close> of them, \<open>decode\<close> of these
  shares, each under the index \<open>encode\<close> gave it and with \<open>share_size = bs\<close>, ends
  normally and has called \<open>output\<close> \<open>k\<close> times, once for each position below \<open>k\<close>,
  each time with the block of the input at that position. The blocks emitted, put in
  the order of their positions, are the input.
\<close>

theorem round_trip:
  assumes "0 < k" and "k \<le> n" and "n \<le> 256" and "n * k \<le> avail"
    and "length input = k * bs" and "0 < bs" and "bs < 2 ^ 31"
    and "sorted_wrt (<) S" and "set S \<subseteq> {..<n}" and "length S = k"
  shows "\<exists>cfg es tr. fec_code_new avail k n = Inr cfg \<and> encode cfg input = (es, None) \<and>
      length es = n \<and>
      decode cfg (map (\<lambda>i. (em_pos (es ! i), em_data (es ! i))) S) bs = (tr, None) \<and>
      length tr = k \<and> distinct (map em_pos tr) \<and> set (map em_pos tr) = {..<k} \<and>
      (\<forall>e \<in> set tr. em_len e = bs \<and> em_data e = take bs (drop (em_pos e * bs) input)) \<and>
      concat (map em_data (sort_key em_pos tr)) = input"
proof -
  from fec_code_new_ok[OF assms(1,2,3,4)] obtain cfg
    where cfg: "fec_code_new avail k n = Inr cfg"
    by blast
  from encode_shares[OF cfg assms(5,6,7)] obtain es
    where es: "encode cfg input = (es, None)" "length es = n"
      and pos: "\<forall>r < n. em_pos (es ! r) = r"
    by blast
  have "map (\<lambda>i. (em_pos (es ! i), em_data (es ! i))) S = map (\<lambda>i. (i, em_data (es ! i))) S"
    using pos assms(9) by (intro map_cong) auto
  with round_trip_blocks[OF cfg assms(5,6,7) es(1) assms(8,9,10)] obtain tr
    where tr: "decode cfg (map (\<lambda>i. (em_pos (es ! i), em_data (es ! i))) S) bs = (tr, None)"
      "length tr = k" "distinct (map em_pos tr)" "set (map em_pos tr) = {..<k}"
      "\<forall>e \<in> set tr. em_len e = bs \<and> em_data e = take bs (drop (em_pos e * bs) input)"
    by auto
  have b: "\<forall>e \<in> set tr. em_data e = take bs (drop (em_pos e * bs) input)"
    using tr(5) by blast
  have "concat (map em_data (sort_key em_pos tr)) = input"
    by (rule reassemble[OF tr(3,4) b assms(5)])
  with cfg es tr show ?thesis by blast
qed

theorem round_trip_example:
  "\<exists>cfg es tr. fec_code_new 65536 3 5 = Inr cfg \<and>
      encode cfg [0, 1, 2, 3, 4, 5, 6, 7, 8, 9, 10, 11] = (es, None) \<and> length es = 5 \<and>
      decode cfg (map (\<lambda>i. (em_pos (es ! i), em_data (es ! i))) [1, 3, 4]) 4 = (tr, None) \<and>
      length tr = 3 \<and> distinct (map em_pos tr) \<and> set (map em_pos tr) = {..<3} \<and>
      concat (map em_data (sort_key em_pos tr)) = [0, 1, 2, 3, 4, 5, 6, 7, 8, 9, 10, 11]"
proof -
  have h: "0 < (3 :: nat)" "(3 :: nat) \<le> 5" "(5 :: nat) \<le> 256" "(5 :: nat) * 3 \<le> 65536"
    "length [0, 1, 2, 3, 4, 5, 6, 7, 8, 9, 10, 11 :: byte] = 3 * 4"
    "0 < (4 :: nat)" "(4 :: nat) < 2 ^ 31"
    "sorted_wrt (<) [1, 3, 4 :: nat]" "set [1, 3, 4 :: nat] \<subseteq> {..<5}"
    "length [1, 3, 4 :: nat] = 3"
    by simp_all
  from round_trip[OF h] show ?thesis by blast
qed

subsection \<open>Block sizes outside that range\<close>

text \<open>
  A block size that reaches \<open>addmul\<close> as a negative \<open>int\<close>, not so close to the least
  \<open>int\<close> that \<open>sz - 16 + 1\<close> leaves the type: both loops of \<open>addmul\<close> end at once.
\<close>

lemma to_int_negative_pos: "to_int bs < 0 \<Longrightarrow> replicate bs (x :: byte) \<noteq> []"
  by (cases "bs = 0") (simp_all add: to_int_def)

lemma encode_negative_size:
  assumes "to_int bs < 0" and "- (2 ^ 31) + 15 \<le> to_int bs"
  shows "encode \<lparr>code_k = 1, code_n = 2, enc_matrix = [1, 1]\<rparr> (replicate bs 1) =
     ([\<lparr>em_pos = 0, em_total = 2, em_data = replicate bs 1, em_len = bs\<rparr>,
       \<lparr>em_pos = 1, em_total = 2, em_data = replicate bs 0, em_len = bs\<rparr>], None)"
  using assms(1) to_int_negative_pos[OF assms(1), of 0]
  by (simp add: encode_def Let_def parity_block_def addmul_vec_def addmul_negative upt_rec)

lemma decode_negative_size:
  assumes "to_int bs < 0" and "- (2 ^ 31) + 15 \<le> to_int bs"
  shows "decode \<lparr>code_k = 1, code_n = 2, enc_matrix = [1, 1]\<rparr> [(1, replicate bs 0)] bs =
     ([\<lparr>em_pos = 0, em_total = 1, em_data = replicate bs 0, em_len = bs\<rparr>], None)"
  using assms(1) to_int_negative_pos[OF assms(1), of 0]
  by (simp add: decode_def Let_def select_init_def select_step_def select_put_def memcpy_def
      invert_matrix_def invert_step_def pivot_search_def unscramble_def recover_def
      recover_block_def addmul_vec_def addmul_negative upt_rec)

lemma to_int_3G: "to_int 3221225472 < 0" "- (2 ^ 31) + 15 \<le> to_int 3221225472"
  by (simp_all add: to_int_def)

text \<open>
  Claim C1. Two inputs on which the round trip fails. With \<open>k = 1\<close>, \<open>n = 2\<close> and one
  block of \<open>3 \<cdot> 2\<^sup>3\<^sup>0\<close> bytes of value 1, the block size reaches \<open>addmul\<close> as a
  negative \<open>int\<close> and \<open>addmul\<close> does nothing: \<open>encode\<close> emits a share 1 that is all
  zero, and \<open>decode\<close> of share 1 emits a block of zeros for position 0, not the input.
  With the empty input, of one block of no bytes, \<open>encode\<close> emits share 0 and then
  writes through the null pointer that \<open>&fec_buf[0]\<close> is for an empty vector;
  \<open>decode\<close> with \<open>share_size = 0\<close> does the same with \<open>&buf[0]\<close>.
\<close>

theorem round_trip_failures:
  "fec_code_new 65536 1 2 = Inr \<lparr>code_k = 1, code_n = 2, enc_matrix = [1, 1]\<rparr> \<and>
   length (replicate 3221225472 (1 :: byte)) = 1 * 3221225472 \<and>
   encode \<lparr>code_k = 1, code_n = 2, enc_matrix = [1, 1]\<rparr> (replicate 3221225472 1) =
     ([\<lparr>em_pos = 0, em_total = 2, em_data = replicate 3221225472 1, em_len = 3221225472\<rparr>,
       \<lparr>em_pos = 1, em_total = 2, em_data = replicate 3221225472 0, em_len = 3221225472\<rparr>],
      None) \<and>
   decode \<lparr>code_k = 1, code_n = 2, enc_matrix = [1, 1]\<rparr> [(1, replicate 3221225472 0)] 3221225472 =
     ([\<lparr>em_pos = 0, em_total = 1, em_data = replicate 3221225472 0, em_len = 3221225472\<rparr>], None) \<and>
   replicate 3221225472 (0 :: byte) \<noteq> replicate 3221225472 1 \<and>
   encode \<lparr>code_k = 1, code_n = 2, enc_matrix = [1, 1]\<rparr> [] =
     ([\<lparr>em_pos = 0, em_total = 2, em_data = [], em_len = 0\<rparr>], Some NullPointer) \<and>
   decode \<lparr>code_k = 1, code_n = 2, enc_matrix = [1, 1]\<rparr> [(1, [])] 0 = ([], Some NullPointer)"
proof -
  have ne: "replicate 3221225472 (0 :: byte) \<noteq> replicate 3221225472 1"
    by (simp add: replicate_eq_replicate)
  have l: "length (replicate 3221225472 (1 :: byte)) = 1 * 3221225472" by simp
  have e0: "encode \<lparr>code_k = 1, code_n = 2, enc_matrix = [1, 1]\<rparr> [] =
     ([\<lparr>em_pos = 0, em_total = 2, em_data = [], em_len = 0\<rparr>], Some NullPointer)"
    by code_simp
  have d0: "decode \<lparr>code_k = 1, code_n = 2, enc_matrix = [1, 1]\<rparr> [(1, [])] 0 =
     ([], Some NullPointer)"
    by code_simp
  show ?thesis
    using fec_code_new_1_2 l encode_negative_size[OF to_int_3G]
      decode_negative_size[OF to_int_3G] ne e0 d0
    by (intro conjI)
qed

end
